theory Spec2Isabelle
  imports Complex_Main
begin

section \<open>Geometry constants of \<open>HexGrid\<close>\<close>

text \<open>
  The class attributes of \<open>HexGrid\<close> in \<open>hexgrid.py\<close>. Python computes them in binary
  floating point; the model reads them as real numbers.
\<close>

definition TILEH :: real where
  "TILEH = 100"

definition TILEW :: real where
  "TILEW = sqrt 3 / 2 * TILEH"

definition EDGELEN :: real where
  "EDGELEN = TILEH / 2"

section \<open>The document tree\<close>

text \<open>
  A tile is a \<open><symbol>\<close> element with an \<open>id\<close> attribute; its drawing content is
  opaque to the grid, which only ever appends the gray border outline to it.

  An element is a mutable object, and Python passes and stores references to it. A
  \<open>symbol\<close> is such an object: \<open>sym_ref\<close> is its identity, the other fields are its
  content. The pools and the document of a grid hold identities; the content of the objects
  the grid holds is kept in the grid's store \<open>elems\<close>, so that a change made through one
  reference is seen through all of them.
\<close>

datatype shape = Shape string | BorderPath

type_synonym ref = nat

record symbol =
  sym_ref :: ref
  sym_id :: string
  sym_body :: "shape list"

text \<open>
  A \<open><use>\<close> element as \<open>_draw_tile\<close> builds it. The \<open>transform\<close> attribute is
  \<open>rotate(theta, cx cy)\<close>, present only when the rotation factor is not 0.
\<close>

record use_elem =
  href :: string
  xlink_href :: string
  use_x :: real
  use_y :: real
  transform :: "(int \<times> real \<times> real) option"

datatype node = SymbolNode ref | GroupNode "use_elem list"

record svg_elem =
  viewBox :: "real \<times> real \<times> real \<times> real"
  svg_width :: real
  svg_height :: real
  children :: "node list"

record hexgrid =
  size_g :: int
  tile_refs :: "ref list"
  edgetile_refs :: "ref list"
  cornertile_refs :: "ref list"
  borders :: bool
  svg :: svg_elem
  elems :: "ref \<Rightarrow> symbol"

text \<open>The three pools as Python shows them: the objects behind the references.\<close>

definition tiles :: "hexgrid \<Rightarrow> symbol list" where
  "tiles g = map (elems g) (tile_refs g)"

definition edgetiles :: "hexgrid \<Rightarrow> symbol list" where
  "edgetiles g = map (elems g) (edgetile_refs g)"

definition cornertiles :: "hexgrid \<Rightarrow> symbol list" where
  "cornertiles g = map (elems g) (cornertile_refs g)"

datatype error = IndexError | AttributeError

section \<open>The random source\<close>

text \<open>
  The module \<open>random\<close> is a deterministic generator with hidden state. The model passes
  the state explicitly: the stream of raw draws still to come. \<open>random.choice\<close> raises
  \<open>IndexError\<close> on an empty sequence.
\<close>

type_synonym rng = "nat \<Rightarrow> nat"

definition rng_next :: "rng \<Rightarrow> rng" where
  "rng_next g = (\<lambda>n. g (Suc n))"

definition random_choice :: "'a list \<Rightarrow> rng \<Rightarrow> error + ('a \<times> rng)" where
  "random_choice xs g =
     (if xs = [] then Inl IndexError
      else Inr (xs ! (g 0 mod length xs), rng_next g))"

definition random_randint :: "int \<Rightarrow> int \<Rightarrow> rng \<Rightarrow> int \<times> rng" where
  "random_randint a b g = (a + int (g 0 mod nat (b - a + 1)), rng_next g)"

section \<open>Construction and tile registration\<close>

definition HexGrid :: "int \<Rightarrow> bool \<Rightarrow> hexgrid" where
  "HexGrid n b =
     (let width = TILEW * 2 * real_of_int n - TILEW;
          height = width * sqrt 3 / 2
      in \<lparr>size_g = n, tile_refs = [], edgetile_refs = [], cornertile_refs = [], borders = b,
          svg = \<lparr>viewBox = (- width / 2, - height / 2, width, height),
                 svg_width = width, svg_height = height, children = []\<rparr>,
          elems = (\<lambda>r. \<lparr>sym_ref = r, sym_id = [], sym_body = []\<rparr>)\<rparr>)"

text \<open>
  The store starts with an empty element at every identity; an entry is read only for an
  object that has been registered.

  The argument of a registration is a reference. For an object the grid already holds
  (every registration puts its object into the document), the content is the one in the
  store; for an object new to the grid it is the content the caller built. Callers are
  taken not to change an object between two registrations of it, as in \<open>drawing.py\<close>.
\<close>

definition known :: "hexgrid \<Rightarrow> ref \<Rightarrow> bool" where
  "known g r \<longleftrightarrow> SymbolNode r \<in> set (children (svg g))"

definition current :: "hexgrid \<Rightarrow> symbol \<Rightarrow> symbol" where
  "current g tile = (if known g (sym_ref tile) then elems g (sym_ref tile) else tile)"

text \<open>
  \<open>_add_symbol\<close> appends the border path to the object itself when borders are on, and a
  reference to it to the document. The object is the one the pools refer to, so every entry
  for it, earlier ones included, carries the border too.
\<close>

definition bordered :: "hexgrid \<Rightarrow> symbol \<Rightarrow> symbol" where
  "bordered g tile =
     (if borders g then tile\<lparr>sym_body := sym_body tile @ [BorderPath]\<rparr> else tile)"

definition add_symbol :: "symbol \<Rightarrow> hexgrid \<Rightarrow> hexgrid" where
  "add_symbol tile g =
     g\<lparr>elems := (elems g)(sym_ref tile := bordered g (current g tile)),
       svg := (svg g)\<lparr>children := children (svg g) @ [SymbolNode (sym_ref tile)]\<rparr>\<rparr>"

definition add_tile :: "symbol \<Rightarrow> hexgrid \<Rightarrow> hexgrid" where
  "add_tile tile g = add_symbol tile (g\<lparr>tile_refs := tile_refs g @ [sym_ref tile]\<rparr>)"

definition add_edge_tile :: "symbol \<Rightarrow> hexgrid \<Rightarrow> hexgrid" where
  "add_edge_tile tile g =
     add_symbol tile (g\<lparr>edgetile_refs := edgetile_refs g @ [sym_ref tile]\<rparr>)"

definition add_corner_tile :: "symbol \<Rightarrow> hexgrid \<Rightarrow> hexgrid" where
  "add_corner_tile tile g =
     add_symbol tile (g\<lparr>cornertile_refs := cornertile_refs g @ [sym_ref tile]\<rparr>)"

section \<open>Placing one tile\<close>

text \<open>\<open>svg.find('g')\<close>: the first child that is a group, if any.\<close>

fun find_g :: "node list \<Rightarrow> use_elem list option" where
  "find_g [] = None"
| "find_g (GroupNode us # ns) = Some us"
| "find_g (SymbolNode s # ns) = find_g ns"

fun update_g :: "(use_elem list \<Rightarrow> use_elem list) \<Rightarrow> node list \<Rightarrow> node list" where
  "update_g f [] = []"
| "update_g f (GroupNode us # ns) = GroupNode (f us) # ns"
| "update_g f (SymbolNode s # ns) = SymbolNode s # update_g f ns"

text \<open>
  Axial to offset coordinates, then to the pixel position (Python's \<open>%\<close> and \<open>//\<close>).
  \<open>pixel_x\<close> and \<open>pixel_y\<close> are the formula of \<open>_draw_tile\<close> in exact arithmetic; they name the
  cell a placement belongs to. The code evaluates the formula in binary64: that evaluation is
  \<open>dbl_pixel_x\<close>, \<open>dbl_pixel_y\<close> of section \<open>The positions in binary64\<close>, which separates
  the cells of a grid as the exact value does as long as the size is at most \<open>2 ^ 45\<close>.
\<close>

definition axial_col :: "int \<Rightarrow> int \<Rightarrow> int" where
  "axial_col q r = q + (r - r mod 2) div 2"

definition pixel_x :: "int \<Rightarrow> int \<Rightarrow> real" where
  "pixel_x q r =
     (let col = axial_col q r; row = r
      in real_of_int col * TILEW + real_of_int (row mod 2) * (TILEW / 2) - TILEW / 2)"

definition pixel_y :: "int \<Rightarrow> real" where
  "pixel_y r = (let row = r in real_of_int row * (TILEH * 3 / 4) - TILEH / 2)"

definition make_use :: "string \<Rightarrow> int \<Rightarrow> int \<Rightarrow> int \<Rightarrow> use_elem" where
  "make_use name q r rot =
     (let x = pixel_x q r; y = pixel_y r
      in \<lparr>href = CHR ''#'' # name, xlink_href = CHR ''#'' # name, use_x = x, use_y = y,
          transform = (if rot \<noteq> 0
                       then Some (rot * 60, x + TILEW / 2, y + TILEH / 2) else None)\<rparr>)"

text \<open>
  \<open>_draw_tile\<close>: with no group in the document, \<open>group.insert\<close> is called on \<open>None\<close>
  and raises before anything is changed.
\<close>

definition draw_tile :: "symbol \<Rightarrow> int \<Rightarrow> int \<Rightarrow> int \<Rightarrow> int \<Rightarrow> hexgrid \<Rightarrow> error + hexgrid" where
  "draw_tile tile q r rot zorder g =
     (let name = sym_id tile;
          use = make_use name q r rot
      in case find_g (children (svg g)) of
           None \<Rightarrow> Inl AttributeError
         | Some grp \<Rightarrow>
             Inr (g\<lparr>svg := (svg g)\<lparr>children :=
                    update_g (\<lambda>us. if zorder = 0 then use # us else us @ [use])
                      (children (svg g))\<rparr>\<rparr>))"

section \<open>Placing all tiles\<close>

type_synonym state = "hexgrid \<times> rng"

text \<open>
  A raised exception leaves the grid as it was mutated so far, so the error branch carries
  the state at the raise.
\<close>

type_synonym outcome = "(error \<times> state) + state"

definition corner_rotate :: "int \<Rightarrow> int \<Rightarrow> int \<Rightarrow> int \<Rightarrow> int" where
  "corner_rotate n q r s =
     (if q = 0 \<and> s = n - 1 then 4
      else if s = 0 \<and> q = n - 1 then 5
      else if q = 0 \<and> r = n - 1 then 1
      else if r = 0 \<and> s = n - 1 then 3
      else if s = 0 \<and> r = n - 1 then 2
      else 0)"

definition edge_rotate :: "int \<Rightarrow> int \<Rightarrow> int \<Rightarrow> int \<Rightarrow> int" where
  "edge_rotate n q r s =
     (if r = n - 1 then 2
      else if r = - n + 1 then - 1
      else if s = n - 1 then 4
      else if q = - n + 1 then 3
      else if q = n - 1 then 0
      else 1)"

text \<open>The body of the two loops of \<open>draw\<close>, for one pair \<open>(q, r)\<close>.\<close>

definition place_cell :: "int \<Rightarrow> int \<Rightarrow> state \<Rightarrow> outcome" where
  "place_cell q r st =
     (let g = fst st; rnd = snd st in
      if \<bar>q + r\<bar> > size_g g - 1 then Inr st
      else
        let s = - q - r in
        if max (max \<bar>q\<bar> \<bar>r\<bar>) \<bar>s\<bar> = size_g g - 1 then
          if (q = 0 \<or> r = 0 \<or> s = 0) \<and> length (cornertiles g) \<noteq> 0 then
            let rot = corner_rotate (size_g g) q r s in
            case random_choice (cornertiles g) rnd of
              Inl e \<Rightarrow> Inl (e, st)
            | Inr (tile, rnd') \<Rightarrow>
                (case draw_tile tile q r rot 0 g of
                   Inl e \<Rightarrow> Inl (e, (g, rnd'))
                 | Inr g' \<Rightarrow> Inr (g', rnd'))
          else if length (edgetiles g) \<noteq> 0 then
            let rot = edge_rotate (size_g g) q r s in
            case random_choice (edgetiles g) rnd of
              Inl e \<Rightarrow> Inl (e, st)
            | Inr (tile, rnd') \<Rightarrow>
                (case draw_tile tile q r rot 1 g of
                   Inl e \<Rightarrow> Inl (e, (g, rnd'))
                 | Inr g' \<Rightarrow> Inr (g', rnd'))
          else Inr st
        else
          case random_choice (tiles g) rnd of
            Inl e \<Rightarrow> Inl (e, st)
          | Inr (tile, rnd') \<Rightarrow>
              (let (rot, rnd'') = random_randint 0 5 rnd' in
               case draw_tile tile q r rot 1 g of
                 Inl e \<Rightarrow> Inl (e, (g, rnd''))
               | Inr g' \<Rightarrow> Inr (g', rnd'')))"

text \<open>A \<open>for\<close> loop whose body may raise: the first exception ends it.\<close>

fun for_each :: "'a list \<Rightarrow> ('a \<Rightarrow> state \<Rightarrow> outcome) \<Rightarrow> state \<Rightarrow> outcome" where
  "for_each [] body st = Inr st"
| "for_each (x # xs) body st =
     (case body x st of Inl e \<Rightarrow> Inl e | Inr st' \<Rightarrow> for_each xs body st')"

text \<open>\<open>range(-self.size+1, self.size)\<close>\<close>

definition range_size :: "int \<Rightarrow> int list" where
  "range_size n = [- n + 1 .. n - 1]"

definition draw :: "hexgrid \<Rightarrow> rng \<Rightarrow> outcome" where
  "draw g rnd =
     (let g1 = g\<lparr>svg := (svg g)\<lparr>children := children (svg g) @ [GroupNode []]\<rparr>\<rparr>
      in for_each (range_size (size_g g1))
           (\<lambda>q. for_each (range_size (size_g g1)) (\<lambda>r. place_cell q r))
           (g1, rnd))"

section \<open>Observing the document\<close>

text \<open>
  The placements of a grid are the children of the group that \<open>_draw_tile\<close> writes to: the
  first \<open>g\<close> child of the document. A grid is fresh while its document has no group yet, as
  after \<open>__init__\<close> and any number of registrations.
\<close>

definition uses :: "hexgrid \<Rightarrow> use_elem list" where
  "uses g = (case find_g (children (svg g)) of None \<Rightarrow> [] | Some us \<Rightarrow> us)"

definition has_group :: "hexgrid \<Rightarrow> bool" where
  "has_group g \<longleftrightarrow> find_g (children (svg g)) \<noteq> None"

definition fresh :: "hexgrid \<Rightarrow> bool" where
  "fresh g \<longleftrightarrow> find_g (children (svg g)) = None"

text \<open>
  What one call of \<open>draw\<close> leaves behind: the exception it raised, if any, the grid as
  mutated (also when it raised), and the placements in that grid's document.
\<close>

definition draw_error :: "hexgrid \<Rightarrow> rng \<Rightarrow> error option" where
  "draw_error g rnd = (case draw g rnd of Inl (e, st) \<Rightarrow> Some e | Inr st \<Rightarrow> None)"

definition drawn :: "hexgrid \<Rightarrow> rng \<Rightarrow> hexgrid" where
  "drawn g rnd = (case draw g rnd of Inl (e, st) \<Rightarrow> fst st | Inr st \<Rightarrow> fst st)"

definition placements :: "hexgrid \<Rightarrow> rng \<Rightarrow> use_elem list" where
  "placements g rnd = uses (drawn g rnd)"

text \<open>
  A \<open><use>\<close> element does not record the cell it was made for, only its pixel position;
  \<open>at_cell q r\<close> holds of the elements positioned where \<open>_draw_tile\<close> puts the cell
  \<open>(q, r)\<close>. The rotation factor is read back from the angle of the transform; no transform
  means factor 0.
\<close>

definition at_cell :: "int \<Rightarrow> int \<Rightarrow> use_elem \<Rightarrow> bool" where
  "at_cell q r u \<longleftrightarrow> use_x u = pixel_x q r \<and> use_y u = pixel_y r"

definition use_rotation :: "use_elem \<Rightarrow> int" where
  "use_rotation u = (case transform u of None \<Rightarrow> 0 | Some (theta, cx, cy) \<Rightarrow> theta div 60)"

section \<open>The branches of the loop body\<close>

text \<open>
  The hexagonal region, and the conditions of the \<open>if\<close> statements of \<open>draw\<close> in the order
  of the source: a cell is corner-classified when it is on the border, one of \<open>q, r, s\<close> is
  0 and the corner pool is non-empty; edge-classified when it is on the border, not
  corner-classified, and the edge pool is non-empty; interior when it is not on the border.
  A border cell that is neither corner- nor edge-classified takes no branch.
\<close>

definition in_region :: "int \<Rightarrow> int \<Rightarrow> int \<Rightarrow> bool" where
  "in_region n q r \<longleftrightarrow> \<bar>q\<bar> \<le> n - 1 \<and> \<bar>r\<bar> \<le> n - 1 \<and> \<bar>q + r\<bar> \<le> n - 1"

definition on_border :: "int \<Rightarrow> int \<Rightarrow> int \<Rightarrow> bool" where
  "on_border n q r \<longleftrightarrow> max (max \<bar>q\<bar> \<bar>r\<bar>) \<bar>- q - r\<bar> = n - 1"

definition zero_coord :: "int \<Rightarrow> int \<Rightarrow> bool" where
  "zero_coord q r \<longleftrightarrow> q = 0 \<or> r = 0 \<or> - q - r = 0"

definition corner_cell :: "hexgrid \<Rightarrow> int \<Rightarrow> int \<Rightarrow> bool" where
  "corner_cell g q r \<longleftrightarrow>
     in_region (size_g g) q r \<and> on_border (size_g g) q r \<and> zero_coord q r \<and> cornertiles g \<noteq> []"

definition edge_cell :: "hexgrid \<Rightarrow> int \<Rightarrow> int \<Rightarrow> bool" where
  "edge_cell g q r \<longleftrightarrow>
     in_region (size_g g) q r \<and> on_border (size_g g) q r \<and>
     \<not> (zero_coord q r \<and> cornertiles g \<noteq> []) \<and> edgetiles g \<noteq> []"

definition interior_cell :: "hexgrid \<Rightarrow> int \<Rightarrow> int \<Rightarrow> bool" where
  "interior_cell g q r \<longleftrightarrow> in_region (size_g g) q r \<and> \<not> on_border (size_g g) q r"

definition placed_cell :: "hexgrid \<Rightarrow> int \<Rightarrow> int \<Rightarrow> bool" where
  "placed_cell g q r \<longleftrightarrow> corner_cell g q r \<or> edge_cell g q r \<or> interior_cell g q r"

text \<open>
  The two ways \<open>_draw_tile\<close> changes a grid that has a group (\<open>group.insert(0, use)\<close> and
  \<open>group.append(use)\<close>), the element \<open>random.choice\<close> returns on a non-empty pool, and the
  group that \<open>draw\<close> adds before its loops.
\<close>

definition prepend_use :: "use_elem \<Rightarrow> hexgrid \<Rightarrow> hexgrid" where
  "prepend_use u g = g\<lparr>svg := (svg g)\<lparr>children := update_g (\<lambda>us. u # us) (children (svg g))\<rparr>\<rparr>"

definition append_use :: "use_elem \<Rightarrow> hexgrid \<Rightarrow> hexgrid" where
  "append_use u g = g\<lparr>svg := (svg g)\<lparr>children := update_g (\<lambda>us. us @ [u]) (children (svg g))\<rparr>\<rparr>"

definition pick :: "symbol list \<Rightarrow> rng \<Rightarrow> symbol" where
  "pick xs rnd = xs ! (rnd 0 mod length xs)"

definition new_group :: "hexgrid \<Rightarrow> hexgrid" where
  "new_group g = g\<lparr>svg := (svg g)\<lparr>children := children (svg g) @ [GroupNode []]\<rparr>\<rparr>"

text \<open>
  The pairs \<open>(q, r)\<close> in the order the two loops visit them, and \<open>draw\<close> cut off after the
  first \<open>k\<close> of them. The fields of the grid that placing never changes.
\<close>

definition cells :: "int \<Rightarrow> (int \<times> int) list" where
  "cells n = List.product (range_size n) (range_size n)"

definition draw_steps :: "nat \<Rightarrow> hexgrid \<Rightarrow> rng \<Rightarrow> outcome" where
  "draw_steps k g rnd =
     for_each (take k (cells (size_g g))) (case_prod place_cell) (new_group g, rnd)"

definition cfg :: "hexgrid \<Rightarrow> int \<times> symbol list \<times> symbol list \<times> symbol list" where
  "cfg g = (size_g g, tiles g, edgetiles g, cornertiles g)"

text \<open>
  The elements the loop body can add for the cell \<open>(q, r)\<close>: a tile of the pool of the cell's
  branch, at the cell's position, with the branch's rotation. An element sits at a corner
  when its position is that of a corner-classified cell.
\<close>

definition placement_for :: "hexgrid \<Rightarrow> int \<Rightarrow> int \<Rightarrow> use_elem \<Rightarrow> bool" where
  "placement_for g q r u \<longleftrightarrow>
     (corner_cell g q r \<and>
        (\<exists>t \<in> set (cornertiles g).
           u = make_use (sym_id t) q r (corner_rotate (size_g g) q r (- q - r)))) \<or>
     (edge_cell g q r \<and>
        (\<exists>t \<in> set (edgetiles g).
           u = make_use (sym_id t) q r (edge_rotate (size_g g) q r (- q - r)))) \<or>
     (interior_cell g q r \<and>
        (\<exists>t \<in> set (tiles g). \<exists>k \<in> {0..5}. u = make_use (sym_id t) q r k))"

definition corner_use :: "hexgrid \<Rightarrow> use_elem \<Rightarrow> bool" where
  "corner_use g u \<longleftrightarrow> (\<exists>q r. corner_cell g q r \<and> at_cell q r u)"

section \<open>The pixel position as the specification words it\<close>

text \<open>
  The specification's formula, written from its words and not from the code: \<open>r mod 2\<close> is
  the non-negative remainder, 0 for even and 1 for odd \<open>r\<close> of either sign, and the division by
  2 rounds toward negative infinity (the floor of the real quotient).
\<close>

definition spec_mod2 :: "int \<Rightarrow> int" where
  "spec_mod2 r = (if even r then 0 else 1)"

definition spec_col :: "int \<Rightarrow> int \<Rightarrow> int" where
  "spec_col q r = q + \<lfloor>(real_of_int r - real_of_int (spec_mod2 r)) / 2\<rfloor>"

definition spec_pixel :: "int \<Rightarrow> int \<Rightarrow> real \<times> real" where
  "spec_pixel q r =
     (real_of_int (spec_col q r) * TILEW + real_of_int (spec_mod2 r) * (TILEW / 2) - TILEW / 2,
      real_of_int r * (3 * TILEH / 4) - TILEH / 2)"

section \<open>The positions in binary64\<close>

text \<open>
  Python's \<open>float\<close> is IEEE 754 binary64. Every operation of the position formula rounds
  its exact result to the nearest double, ties to the even significand: so do the conversion
  of an \<open>int\<close> operand, the true division of two \<open>int\<close>s and \<open>math.sqrt\<close>. \<open>dbl\<close> is that
  rounding on the reals: 53 significant bits, spacing \<open>ulp\<close>, with the fixed spacing of the
  subnormal range below \<open>2 ^ -1022\<close>. Results beyond the largest double, where Python gives
  \<open>inf\<close> or raises \<open>OverflowError\<close>, are outside what is stated about it below.
\<close>

definition round_even :: "real \<Rightarrow> int" where
  "round_even x =
     (let f = \<lfloor>x\<rfloor>; d = x - of_int f
      in if d < 1 / 2 then f else if 1 / 2 < d then f + 1 else if even f then f else f + 1)"

definition ulp :: "real \<Rightarrow> real" where
  "ulp x = 2 powr of_int (max \<lfloor>log 2 \<bar>x\<bar>\<rfloor> (- 1022) - 52)"

definition dbl :: "real \<Rightarrow> real" where
  "dbl x = (if x = 0 then 0 else of_int (round_even (x / ulp x)) * ulp x)"

text \<open>
  \<open>TILEW\<close> and the position of a cell as the code computes them, operation by operation
  (\<open>TILEH\<close> is the \<open>int\<close> 100). \<open>pixel_x\<close> and \<open>pixel_y\<close> above are the same formula without
  the rounding.
\<close>

definition TILEW_d :: real where
  "TILEW_d = dbl (dbl (dbl (sqrt (dbl 3)) / dbl 2) * dbl 100)"

definition dbl_pixel_x :: "int \<Rightarrow> int \<Rightarrow> real" where
  "dbl_pixel_x q r =
     (let col = axial_col q r; row = r
      in dbl (dbl (dbl (dbl (of_int col) * TILEW_d) +
                   dbl (dbl (of_int (row mod 2)) * dbl (TILEW_d / dbl 2))) -
              dbl (TILEW_d / dbl 2)))"

definition dbl_pixel_y :: "int \<Rightarrow> real" where
  "dbl_pixel_y r =
     (let row = r
      in dbl (dbl (dbl (of_int row) * dbl (of_int (100 * 3) / of_int 4)) -
              dbl (of_int 100 / of_int 2)))"

section \<open>The placements as a function of seed and configuration\<close>

text \<open>
  The sequence of placements written out as a function of nothing but the size, the
  identifiers of the three pools in order, the placements already in the group and the state
  of the random source: one pass over the cells in the order of the loops, with the result of
  \<open>insert(0, use)\<close> and \<open>append(use)\<close> kept as a plain list. It returns the exception that
  ends the pass, if any, and the list.
\<close>

fun plan :: "int \<Rightarrow> string list \<Rightarrow> string list \<Rightarrow> string list \<Rightarrow> (int \<times> int) list \<Rightarrow>
    use_elem list \<Rightarrow> rng \<Rightarrow> error option \<times> use_elem list" where
  "plan n ts es cs [] us rnd = (None, us)"
| "plan n ts es cs ((q, r) # rest) us rnd =
     (if \<not> in_region n q r then plan n ts es cs rest us rnd
      else if on_border n q r then
        if zero_coord q r \<and> cs \<noteq> [] then
          plan n ts es cs rest
            (make_use (cs ! (rnd 0 mod length cs)) q r (corner_rotate n q r (- q - r)) # us)
            (rng_next rnd)
        else if es \<noteq> [] then
          plan n ts es cs rest
            (us @ [make_use (es ! (rnd 0 mod length es)) q r (edge_rotate n q r (- q - r))])
            (rng_next rnd)
        else plan n ts es cs rest us rnd
      else if ts = [] then (Some IndexError, us)
      else
        plan n ts es cs rest
          (us @ [make_use (ts ! (rnd 0 mod length ts)) q r (int (rnd 1 mod 6))])
          (rng_next (rng_next rnd)))"

definition placement_list :: "int \<Rightarrow> string list \<Rightarrow> string list \<Rightarrow> string list \<Rightarrow>
    use_elem list \<Rightarrow> rng \<Rightarrow> error option \<times> use_elem list" where
  "placement_list n ts es cs us rnd = plan n ts es cs (cells n) us rnd"

definition outcome_view :: "outcome \<Rightarrow> error option \<times> use_elem list" where
  "outcome_view out =
     (case out of Inl (e, st) \<Rightarrow> (Some e, uses (fst st)) | Inr st \<Rightarrow> (None, uses (fst st)))"

section \<open>Example grids\<close>

text \<open>
  A random source whose every raw draw is 0, three tiles, and grids built from them by the
  registration functions, as \<open>build_hex\<close> in \<open>drawing.py\<close> builds its grid.
\<close>

definition zero_rng :: rng where
  "zero_rng = (\<lambda>n. 0)"

definition tile_A :: symbol where
  "tile_A = \<lparr>sym_ref = 0, sym_id = ''A'', sym_body = []\<rparr>"

definition tile_A2 :: symbol where
  "tile_A2 = \<lparr>sym_ref = 3, sym_id = ''A'', sym_body = []\<rparr>"

definition tile_edge :: symbol where
  "tile_edge = \<lparr>sym_ref = 1, sym_id = ''edge'', sym_body = []\<rparr>"

definition tile_corner :: symbol where
  "tile_corner = \<lparr>sym_ref = 2, sym_id = ''corner'', sym_body = []\<rparr>"

definition grid_A1 :: hexgrid where
  "grid_A1 = add_tile tile_A (HexGrid 1 False)"

definition grid_A2 :: hexgrid where
  "grid_A2 = add_tile tile_A (HexGrid 2 False)"

definition grid_AE2 :: hexgrid where
  "grid_AE2 = add_edge_tile tile_edge (add_tile tile_A (HexGrid 2 False))"

definition grid_full :: "int \<Rightarrow> hexgrid" where
  "grid_full n =
     add_corner_tile tile_corner (add_edge_tile tile_edge (add_tile tile_A (HexGrid n False)))"

definition grid_noint :: hexgrid where
  "grid_noint = add_corner_tile tile_corner (add_edge_tile tile_edge (HexGrid 2 False))"

definition grid_other :: hexgrid where
  "grid_other =
     add_tile tile_A (add_edge_tile tile_edge (add_corner_tile tile_corner (HexGrid 2 False)))"

section \<open>The loop body, case by case\<close>

lemmas pool_defs = tiles_def edgetiles_def cornertiles_def

lemmas reg_defs =
  HexGrid_def add_tile_def add_edge_tile_def add_corner_tile_def add_symbol_def bordered_def
  known_def current_def pool_defs Let_def

lemmas grid_defs = reg_defs tile_A_def tile_A2_def tile_edge_def tile_corner_def

lemma find_g_update_g: "find_g (update_g f ns) = map_option f (find_g ns)"
  by (induction f ns rule: update_g.induct) auto

lemma draw_tile_group:
  "has_group g \<Longrightarrow>
   draw_tile t q r rot z g =
     Inr (if z = 0 then prepend_use (make_use (sym_id t) q r rot) g
          else append_use (make_use (sym_id t) q r rot) g)"
  by (auto simp: has_group_def draw_tile_def prepend_use_def append_use_def Let_def
           split: option.splits)

lemma place_cell_corner:
  assumes "corner_cell g q r" "has_group g"
  shows "place_cell q r (g, rnd) =
     Inr (prepend_use (make_use (sym_id (pick (cornertiles g) rnd)) q r
            (corner_rotate (size_g g) q r (- q - r))) g, rng_next rnd)"
  using assms
  by (simp add: place_cell_def corner_cell_def in_region_def on_border_def zero_coord_def
        random_choice_def draw_tile_group pick_def Let_def)

lemma place_cell_edge:
  assumes "edge_cell g q r" "has_group g"
  shows "place_cell q r (g, rnd) =
     Inr (append_use (make_use (sym_id (pick (edgetiles g) rnd)) q r
            (edge_rotate (size_g g) q r (- q - r))) g, rng_next rnd)"
  using assms
  by (auto simp: place_cell_def edge_cell_def in_region_def on_border_def zero_coord_def
        random_choice_def draw_tile_group pick_def Let_def)

lemma place_cell_interior:
  assumes "interior_cell g q r" "has_group g" "tiles g \<noteq> []"
  shows "place_cell q r (g, rnd) =
     Inr (append_use (make_use (sym_id (pick (tiles g) rnd)) q r
            (int (rnd 1 mod 6))) g, rng_next (rng_next rnd))"
  using assms
  by (simp add: place_cell_def interior_cell_def in_region_def on_border_def
        random_choice_def random_randint_def rng_next_def draw_tile_group pick_def Let_def)

lemma place_cell_interior_empty:
  assumes "interior_cell g q r" "tiles g = []"
  shows "place_cell q r (g, rnd) = Inl (IndexError, (g, rnd))"
  using assms
  by (simp add: place_cell_def interior_cell_def in_region_def on_border_def
        random_choice_def Let_def)

lemma place_cell_skip:
  assumes "\<bar>q\<bar> \<le> size_g g - 1" "\<bar>r\<bar> \<le> size_g g - 1" "\<not> placed_cell g q r"
  shows "place_cell q r (g, rnd) = Inr (g, rnd)"
proof (cases "\<bar>q + r\<bar> > size_g g - 1")
  case True
  then show ?thesis by (simp add: place_cell_def Let_def)
next
  case False
  with assms have r: "in_region (size_g g) q r"
    by (simp add: in_region_def)
  with assms(3) have b: "on_border (size_g g) q r"
    and c: "\<not> (zero_coord q r \<and> cornertiles g \<noteq> [])" and e: "edgetiles g = []"
    by (auto simp: placed_cell_def corner_cell_def edge_cell_def interior_cell_def)
  from c have c': "\<not> ((q = 0 \<or> r = 0 \<or> - q - r = 0) \<and> length (cornertiles g) \<noteq> 0)"
    by (simp add: zero_coord_def)
  from b have b': "max (max \<bar>q\<bar> \<bar>r\<bar>) \<bar>- q - r\<bar> = size_g g - 1"
    by (simp add: on_border_def)
  show ?thesis
    unfolding place_cell_def Let_def fst_conv snd_conv
    by (simp only: False b' c' e if_False if_True list.size refl simp_thms)
qed

section \<open>The two loops as one pass over the cells\<close>

lemma for_each_append:
  "for_each (xs @ ys) body st =
     (case for_each xs body st of Inl e \<Rightarrow> Inl e | Inr st' \<Rightarrow> for_each ys body st')"
  by (induction xs arbitrary: st) (auto split: sum.splits)

lemma for_each_map:
  "for_each (map f xs) body st = for_each xs (\<lambda>x. body (f x)) st"
  by (induction xs arbitrary: st) (auto split: sum.splits)

lemma for_each_product:
  "for_each qs (\<lambda>q. for_each rs (\<lambda>r. body q r)) st =
   for_each (List.product qs rs) (case_prod body) st"
  by (induction qs arbitrary: st) (auto simp: for_each_append for_each_map split: sum.splits)

lemma draw_cells:
  "draw g rnd = for_each (cells (size_g g)) (case_prod place_cell) (new_group g, rnd)"
  by (simp add: draw_def cells_def new_group_def Let_def for_each_product)

lemma set_cells: "(q, r) \<in> set (cells n) \<longleftrightarrow> \<bar>q\<bar> \<le> n - 1 \<and> \<bar>r\<bar> \<le> n - 1"
  by (auto simp: cells_def range_size_def)

lemma distinct_cells: "distinct (cells n)"
  by (simp add: cells_def range_size_def distinct_product)

lemma cfg_prepend_use [simp]: "cfg (prepend_use u g) = cfg g"
  by (simp add: cfg_def pool_defs prepend_use_def)

lemma cfg_append_use [simp]: "cfg (append_use u g) = cfg g"
  by (simp add: cfg_def pool_defs append_use_def)

lemma has_group_prepend_use [simp]: "has_group (prepend_use u g) = has_group g"
  by (simp add: has_group_def prepend_use_def find_g_update_g)

lemma has_group_append_use [simp]: "has_group (append_use u g) = has_group g"
  by (simp add: has_group_def append_use_def find_g_update_g)

lemma uses_prepend_use: "has_group g \<Longrightarrow> uses (prepend_use u g) = u # uses g"
  by (auto simp: has_group_def uses_def prepend_use_def find_g_update_g)

lemma uses_append_use: "has_group g \<Longrightarrow> uses (append_use u g) = uses g @ [u]"
  by (auto simp: has_group_def uses_def append_use_def find_g_update_g)

lemma cfg_cells:
  assumes "cfg g = cfg G"
  shows "corner_cell g = corner_cell G" "edge_cell g = edge_cell G"
    "interior_cell g = interior_cell G" "placed_cell g = placed_cell G"
    "placement_for g = placement_for G"
  using assms
  by (auto simp: cfg_def corner_cell_def edge_cell_def interior_cell_def placed_cell_def
        placement_for_def fun_eq_iff)

lemma cfg_fields:
  assumes "cfg g = cfg G"
  shows "size_g g = size_g G" "tiles g = tiles G" "edgetiles g = edgetiles G"
    "cornertiles g = cornertiles G"
  using assms by (auto simp: cfg_def)

lemma pick_in_set: "xs \<noteq> [] \<Longrightarrow> pick xs rnd \<in> set xs"
  by (simp add: pick_def)

lemma cell_cases:
  obtains (corner) "corner_cell g q r" "\<not> edge_cell g q r" "\<not> interior_cell g q r"
  | (edge) "edge_cell g q r" "\<not> corner_cell g q r" "\<not> interior_cell g q r"
  | (interior) "interior_cell g q r" "\<not> corner_cell g q r" "\<not> edge_cell g q r"
  | (none) "\<not> placed_cell g q r" "\<not> corner_cell g q r" "\<not> edge_cell g q r" "\<not> interior_cell g q r"
  by (auto simp: placed_cell_def corner_cell_def edge_cell_def interior_cell_def)

lemma for_each_cells:
  assumes "for_each cs (case_prod place_cell) (g, rnd) = Inr (g', rnd')"
    and "has_group g" and "cfg g = cfg G"
    and "\<forall>(q, r) \<in> set cs. \<bar>q\<bar> \<le> size_g G - 1 \<and> \<bar>r\<bar> \<le> size_g G - 1"
  shows "cfg g' = cfg G \<and> has_group g' \<and>
     (\<exists>cu ou. uses g' = rev cu @ uses g @ ou \<and>
        list_all2 (\<lambda>u (q, r). placement_for G q r u) cu
          (filter (case_prod (corner_cell G)) cs) \<and>
        list_all2 (\<lambda>u (q, r). placement_for G q r u) ou
          (filter (\<lambda>(q, r). edge_cell G q r \<or> interior_cell G q r) cs))"
  using assms
proof (induction cs arbitrary: g rnd)
  case Nil
  then show ?case by simp
next
  case (Cons c cs)
  obtain q r where c: "c = (q, r)" by (cases c)
  note eqs = cfg_cells [OF Cons.prems(3)] cfg_fields [OF Cons.prems(3)]
  from Cons.prems(4) c have rng: "\<bar>q\<bar> \<le> size_g g - 1" "\<bar>r\<bar> \<le> size_g g - 1"
    and rest: "\<forall>(q, r) \<in> set cs. \<bar>q\<bar> \<le> size_g G - 1 \<and> \<bar>r\<bar> \<le> size_g G - 1"
    by (auto simp: eqs)
  show ?case
  proof (cases rule: cell_cases [of G q r])
    case corner
    define u where "u = make_use (sym_id (pick (cornertiles g) rnd)) q r
       (corner_rotate (size_g g) q r (- q - r))"
    have step: "place_cell q r (g, rnd) = Inr (prepend_use u g, rng_next rnd)"
      using corner(1) Cons.prems(2) by (simp add: place_cell_corner eqs u_def)
    have pf: "placement_for G q r u"
      using corner(1) by (auto simp: placement_for_def u_def eqs corner_cell_def intro!: pick_in_set)
    from Cons.prems(1) step c
    have run: "for_each cs (case_prod place_cell) (prepend_use u g, rng_next rnd) = Inr (g', rnd')"
      by simp
    from Cons.IH [OF run _ _ rest] Cons.prems(2,3)
    obtain cu ou where ih: "cfg g' = cfg G" "has_group g'"
      "uses g' = rev cu @ uses (prepend_use u g) @ ou"
      "list_all2 (\<lambda>u (q, r). placement_for G q r u) cu (filter (case_prod (corner_cell G)) cs)"
      "list_all2 (\<lambda>u (q, r). placement_for G q r u) ou
          (filter (\<lambda>(q, r). edge_cell G q r \<or> interior_cell G q r) cs)"
      by auto
    have "uses g' = rev (u # cu) @ uses g @ ou"
      using ih(3) Cons.prems(2) by (simp add: uses_prepend_use)
    moreover have "list_all2 (\<lambda>u (q, r). placement_for G q r u) (u # cu)
        (filter (case_prod (corner_cell G)) (c # cs))"
      using ih(4) pf corner(1) c by simp
    moreover have "list_all2 (\<lambda>u (q, r). placement_for G q r u) ou
          (filter (\<lambda>(q, r). edge_cell G q r \<or> interior_cell G q r) (c # cs))"
      using ih(5) corner(2,3) c by simp
    ultimately show ?thesis using ih(1,2) by blast
  next
    case edge
    define u where "u = make_use (sym_id (pick (edgetiles g) rnd)) q r
       (edge_rotate (size_g g) q r (- q - r))"
    have step: "place_cell q r (g, rnd) = Inr (append_use u g, rng_next rnd)"
      using edge(1) Cons.prems(2) by (simp add: place_cell_edge eqs u_def)
    have pf: "placement_for G q r u"
      using edge(1) by (auto simp: placement_for_def u_def eqs edge_cell_def intro!: pick_in_set)
    from Cons.prems(1) step c
    have run: "for_each cs (case_prod place_cell) (append_use u g, rng_next rnd) = Inr (g', rnd')"
      by simp
    from Cons.IH [OF run _ _ rest] Cons.prems(2,3)
    obtain cu ou where ih: "cfg g' = cfg G" "has_group g'"
      "uses g' = rev cu @ uses (append_use u g) @ ou"
      "list_all2 (\<lambda>u (q, r). placement_for G q r u) cu (filter (case_prod (corner_cell G)) cs)"
      "list_all2 (\<lambda>u (q, r). placement_for G q r u) ou
          (filter (\<lambda>(q, r). edge_cell G q r \<or> interior_cell G q r) cs)"
      by auto
    have "uses g' = rev cu @ uses g @ (u # ou)"
      using ih(3) Cons.prems(2) by (simp add: uses_append_use)
    moreover have "list_all2 (\<lambda>u (q, r). placement_for G q r u) cu
        (filter (case_prod (corner_cell G)) (c # cs))"
      using ih(4) edge(2) c by simp
    moreover have "list_all2 (\<lambda>u (q, r). placement_for G q r u) (u # ou)
          (filter (\<lambda>(q, r). edge_cell G q r \<or> interior_cell G q r) (c # cs))"
      using ih(5) pf edge(1) c by simp
    ultimately show ?thesis using ih(1,2) by blast
  next
    case interior
    have ne: "tiles g \<noteq> []"
    proof
      assume "tiles g = []"
      then have "place_cell q r (g, rnd) = Inl (IndexError, (g, rnd))"
        using interior(1) by (simp add: place_cell_interior_empty eqs)
      with Cons.prems(1) c show False by simp
    qed
    define u where "u = make_use (sym_id (pick (tiles g) rnd)) q r (int (rnd 1 mod 6))"
    have step: "place_cell q r (g, rnd) = Inr (append_use u g, rng_next (rng_next rnd))"
      using interior(1) Cons.prems(2) ne by (simp add: place_cell_interior eqs u_def)
    have k: "int (rnd 1 mod 6) \<in> {0..5}" by auto
    have t: "pick (tiles G) rnd \<in> set (tiles G)"
      using ne by (simp add: pick_in_set eqs)
    have "\<exists>t \<in> set (tiles G). \<exists>k \<in> {0..5}. u = make_use (sym_id t) q r k"
      using t k unfolding u_def eqs by blast
    then have pf: "placement_for G q r u"
      using interior(1) by (simp add: placement_for_def)
    from Cons.prems(1) step c
    have run: "for_each cs (case_prod place_cell) (append_use u g, rng_next (rng_next rnd)) = Inr (g', rnd')"
      by simp
    from Cons.IH [OF run _ _ rest] Cons.prems(2,3)
    obtain cu ou where ih: "cfg g' = cfg G" "has_group g'"
      "uses g' = rev cu @ uses (append_use u g) @ ou"
      "list_all2 (\<lambda>u (q, r). placement_for G q r u) cu (filter (case_prod (corner_cell G)) cs)"
      "list_all2 (\<lambda>u (q, r). placement_for G q r u) ou
          (filter (\<lambda>(q, r). edge_cell G q r \<or> interior_cell G q r) cs)"
      by auto
    have "uses g' = rev cu @ uses g @ (u # ou)"
      using ih(3) Cons.prems(2) by (simp add: uses_append_use)
    moreover have "list_all2 (\<lambda>u (q, r). placement_for G q r u) cu
        (filter (case_prod (corner_cell G)) (c # cs))"
      using ih(4) interior(2) c by simp
    moreover have "list_all2 (\<lambda>u (q, r). placement_for G q r u) (u # ou)
          (filter (\<lambda>(q, r). edge_cell G q r \<or> interior_cell G q r) (c # cs))"
      using ih(5) pf interior(1) c by simp
    ultimately show ?thesis using ih(1,2) by blast
  next
    case none
    have step: "place_cell q r (g, rnd) = Inr (g, rnd)"
      using none(1) rng by (simp add: place_cell_skip eqs)
    from Cons.prems(1) step c
    have run: "for_each cs (case_prod place_cell) (g, rnd) = Inr (g', rnd')"
      by simp
    from Cons.IH [OF run Cons.prems(2,3) rest] none c
    show ?thesis by simp
  qed
qed

section \<open>Positions, success and counting\<close>

lemma TILEW_pos: "0 < TILEW"
  by (simp add: TILEW_def TILEH_def)

lemma pixel_y_inj: "pixel_y r1 = pixel_y r2 \<Longrightarrow> r1 = r2"
  by (simp add: pixel_y_def TILEH_def)

lemma pixel_x_inj: "pixel_x q1 r = pixel_x q2 r \<Longrightarrow> q1 = q2"
  using TILEW_pos by (simp add: pixel_x_def axial_col_def)

lemma pixel_inj:
  "pixel_x q1 r1 = pixel_x q2 r2 \<Longrightarrow> pixel_y r1 = pixel_y r2 \<Longrightarrow> q1 = q2 \<and> r1 = r2"
  using pixel_x_inj pixel_y_inj by blast

lemma at_cell_make_use: "at_cell q r (make_use name q' r' rot) \<longleftrightarrow> q = q' \<and> r = r'"
  using pixel_inj by (auto simp: at_cell_def make_use_def Let_def)

lemma use_rotation_make_use: "use_rotation (make_use name q r rot) = rot"
  by (simp add: use_rotation_def make_use_def Let_def)

lemma placement_for_at_cell:
  "placement_for g q r u \<Longrightarrow> at_cell q' r' u \<longleftrightarrow> q' = q \<and> r' = r"
  by (auto simp: placement_for_def at_cell_make_use)

lemma count_at_cell:
  "list_all2 (\<lambda>u (q, r). placement_for G q r u) us cs \<Longrightarrow>
   length (filter (at_cell q r) us) = length (filter (\<lambda>c. c = (q, r)) cs)"
  by (induction us cs rule: list_all2_induct) (auto simp: placement_for_at_cell)

lemma count_distinct:
  "distinct xs \<Longrightarrow> length (filter (\<lambda>c. c = x) xs) = (if x \<in> set xs then 1 else 0)"
  by (induction xs) auto

lemma filter_eq_filter:
  "filter (\<lambda>c. c = x) (filter P xs) = (if P x then filter (\<lambda>c. c = x) xs else [])"
  by (induction xs) auto

lemma cfg_new_group [simp]: "cfg (new_group g) = cfg g"
  by (simp add: cfg_def pool_defs new_group_def)

lemma find_g_append:
  "find_g (ns @ ms) = (case find_g ns of None \<Rightarrow> find_g ms | Some us \<Rightarrow> Some us)"
  by (induction ns rule: find_g.induct) auto

lemma has_group_new_group [simp]: "has_group (new_group g)"
  by (simp add: has_group_def new_group_def find_g_append split: option.splits)

lemma uses_new_group: "uses (new_group g) = uses g"
  by (simp add: uses_def new_group_def find_g_append split: option.splits)

lemma uses_fresh: "fresh g \<Longrightarrow> uses g = []"
  by (simp add: uses_def fresh_def)

lemma no_interior: "size_g g \<le> 1 \<Longrightarrow> \<not> interior_cell g q r"
  by (auto simp: interior_cell_def in_region_def on_border_def)

lemma for_each_succeeds:
  assumes "has_group g" "cfg g = cfg G"
    and "\<forall>(q, r) \<in> set cs. \<bar>q\<bar> \<le> size_g G - 1 \<and> \<bar>r\<bar> \<le> size_g G - 1"
    and "tiles G \<noteq> [] \<or> size_g G \<le> 1"
  shows "\<exists>st. for_each cs (case_prod place_cell) (g, rnd) = Inr st"
  using assms
proof (induction cs arbitrary: g rnd)
  case Nil
  then show ?case by simp
next
  case (Cons c cs)
  obtain q r where c: "c = (q, r)" by (cases c)
  note eqs = cfg_cells [OF Cons.prems(2)] cfg_fields [OF Cons.prems(2)]
  from Cons.prems(3) c have rng: "\<bar>q\<bar> \<le> size_g g - 1" "\<bar>r\<bar> \<le> size_g g - 1"
    and rest: "\<forall>(q, r) \<in> set cs. \<bar>q\<bar> \<le> size_g G - 1 \<and> \<bar>r\<bar> \<le> size_g G - 1"
    by (auto simp: eqs)
  have "\<exists>g1 rnd1. place_cell q r (g, rnd) = Inr (g1, rnd1) \<and> has_group g1 \<and> cfg g1 = cfg G"
  proof (cases rule: cell_cases [of G q r])
    case corner
    then show ?thesis
      using Cons.prems(1,2) by (simp add: place_cell_corner eqs)
  next
    case edge
    then show ?thesis
      using Cons.prems(1,2) by (simp add: place_cell_edge eqs)
  next
    case interior
    with Cons.prems(4) have "tiles g \<noteq> []"
      using no_interior [of G q r] by (auto simp: eqs)
    with interior show ?thesis
      using Cons.prems(1,2) by (simp add: place_cell_interior eqs)
  next
    case none
    then show ?thesis
      using Cons.prems(1,2) rng by (simp add: place_cell_skip eqs)
  qed
  then obtain g1 rnd1 where step: "place_cell q r (g, rnd) = Inr (g1, rnd1)"
    and g1: "has_group g1" "cfg g1 = cfg G" by blast
  from Cons.IH [OF g1 rest Cons.prems(4)] step c show ?case by simp
qed

lemma in_cells: "\<forall>(q, r) \<in> set (cells n). \<bar>q\<bar> \<le> n - 1 \<and> \<bar>r\<bar> \<le> n - 1"
  by (auto simp: set_cells)

lemma draw_succeeds:
  assumes "tiles g \<noteq> [] \<or> size_g g \<le> 1"
  shows "\<exists>g' rnd'. draw g rnd = Inr (g', rnd')"
  using for_each_succeeds [OF has_group_new_group cfg_new_group in_cells assms, of rnd]
  by (auto simp: draw_cells)

lemma draw_result:
  assumes "draw g rnd = Inr (g', rnd')"
  shows "cfg g' = cfg g \<and>
     (\<exists>cu ou. uses g' = rev cu @ uses g @ ou \<and>
        list_all2 (\<lambda>u (q, r). placement_for g q r u) cu
          (filter (case_prod (corner_cell g)) (cells (size_g g))) \<and>
        list_all2 (\<lambda>u (q, r). placement_for g q r u) ou
          (filter (\<lambda>(q, r). edge_cell g q r \<or> interior_cell g q r) (cells (size_g g))))"
  using for_each_cells [OF assms [unfolded draw_cells] has_group_new_group cfg_new_group in_cells]
  by (simp add: uses_new_group)

lemma placed_in_cells: "placed_cell g q r \<Longrightarrow> (q, r) \<in> set (cells (size_g g))"
  by (auto simp: placed_cell_def corner_cell_def edge_cell_def interior_cell_def in_region_def
        set_cells)

lemma draw_count:
  assumes "draw g rnd = Inr (g', rnd')" "fresh g"
  shows "length (filter (at_cell q r) (uses g')) = (if placed_cell g q r then 1 else 0)"
proof -
  let ?cs = "cells (size_g g)"
  from draw_result [OF assms(1)] uses_fresh [OF assms(2)]
  obtain cu ou where u: "uses g' = rev cu @ ou"
    and cu: "list_all2 (\<lambda>u (q, r). placement_for g q r u) cu
          (filter (case_prod (corner_cell g)) ?cs)"
    and ou: "list_all2 (\<lambda>u (q, r). placement_for g q r u) ou
          (filter (\<lambda>(q, r). edge_cell g q r \<or> interior_cell g q r) ?cs)"
    by auto
  have d: "length (filter (\<lambda>c. c = (q, r)) ?cs) = (if (q, r) \<in> set ?cs then 1 else 0)"
    by (rule count_distinct [OF distinct_cells])
  have "length (filter (at_cell q r) (uses g')) =
      length (filter (at_cell q r) cu) + length (filter (at_cell q r) ou)"
    by (simp add: u rev_filter [symmetric])
  also have "\<dots> = (if corner_cell g q r then length (filter (\<lambda>c. c = (q, r)) ?cs) else 0) +
      (if edge_cell g q r \<or> interior_cell g q r then length (filter (\<lambda>c. c = (q, r)) ?cs) else 0)"
    unfolding count_at_cell [OF cu] count_at_cell [OF ou] filter_eq_filter
    by (simp del: filter_filter)
  also have "\<dots> = (if placed_cell g q r then 1 else 0)"
    using placed_in_cells [of g q r] cell_cases [of g q r]
    by (auto simp: d placed_cell_def)
  finally show ?thesis .
qed

section \<open>The pixel position of a cell\<close>

lemma mod2_spec: "r mod 2 = spec_mod2 r"
  unfolding spec_mod2_def by presburger

lemma col_spec: "axial_col q r = spec_col q r"
proof -
  have "(r - r mod 2) div 2 = \<lfloor>real_of_int (r - r mod 2) / 2\<rfloor>"
    using floor_divide_of_int_eq [of "r - r mod 2" 2, where ?'a = real] by simp
  then show ?thesis
    unfolding axial_col_def spec_col_def mod2_spec by simp
qed

lemma pixel_spec: "(pixel_x q r, pixel_y r) = spec_pixel q r"
  unfolding pixel_x_def pixel_y_def spec_pixel_def col_spec mod2_spec Let_def by simp

lemma fresh_HexGrid: "fresh (HexGrid n b)"
  by (simp add: fresh_def HexGrid_def Let_def)

lemma draw_tile_uses:
  assumes "draw_tile tile q r rot z g = Inr g'"
  shows "uses g' = (if z = 0 then make_use (sym_id tile) q r rot # uses g
                    else uses g @ [make_use (sym_id tile) q r rot])"
proof -
  have hg: "has_group g"
    using assms by (auto simp: draw_tile_def has_group_def Let_def split: option.splits)
  with assms show ?thesis
    by (auto simp: draw_tile_group uses_prepend_use uses_append_use)
qed

lemma make_use_spec_pixel:
  "(use_x (make_use name q r rot), use_y (make_use name q r rot)) = spec_pixel q r"
  using pixel_spec [of q r] by (simp add: make_use_def Let_def)

lemma spec_mod2_range: "0 \<le> spec_mod2 r \<and> spec_mod2 r < 2 \<and> (r - spec_mod2 r) mod 2 = 0"
  unfolding spec_mod2_def by presburger

text \<open>
  Claim C6. When \<open>_draw_tile\<close> places a tile for the cell \<open>(q, r)\<close>, negative \<open>r\<close> included,
  the recorded position is \<open>x = col * TILEW + (r mod 2) * (TILEW / 2) - TILEW / 2\<close> and
  \<open>y = r * (3 * TILEH / 4) - TILEH / 2\<close> with \<open>col = q + (r - (r mod 2)) / 2\<close>, where
  \<open>r mod 2\<close> is the non-negative remainder (0 or 1) and the division by 2 is the floor of
  the quotient.
\<close>
theorem draw_tile_pixel_position:
  assumes "draw_tile tile q r rot z g = Inr g'"
  shows "\<exists>u. uses g' = (if z = 0 then u # uses g else uses g @ [u]) \<and>
     (use_x u, use_y u) = spec_pixel q r \<and>
     0 \<le> spec_mod2 r \<and> spec_mod2 r < 2 \<and> (r - spec_mod2 r) mod 2 = 0"
proof (intro exI conjI)
  show "uses g' = (if z = 0 then make_use (sym_id tile) q r rot # uses g
                    else uses g @ [make_use (sym_id tile) q r rot])"
    by (rule draw_tile_uses [OF assms])
  show "(use_x (make_use (sym_id tile) q r rot), use_y (make_use (sym_id tile) q r rot)) =
      spec_pixel q r"
    by (rule make_use_spec_pixel)
qed (simp_all add: spec_mod2_range)

theorem draw_tile_pixel_position_witness:
  "draw_tile tile_A 0 (- 1) 0 1 (new_group (HexGrid 2 False)) =
     Inr (append_use (make_use ''A'' 0 (- 1) 0) (new_group (HexGrid 2 False))) \<and>
   (\<exists>u. uses (append_use (make_use ''A'' 0 (- 1) 0) (new_group (HexGrid 2 False))) = [u] \<and>
      (use_x u, use_y u) = (- TILEW, - 125))"
proof -
  have d: "draw_tile tile_A 0 (- 1) 0 1 (new_group (HexGrid 2 False)) =
     Inr (append_use (make_use ''A'' 0 (- 1) 0) (new_group (HexGrid 2 False)))"
    by (simp add: draw_tile_group tile_A_def)
  have u: "uses (new_group (HexGrid 2 False)) = []"
    by (simp add: uses_new_group uses_fresh fresh_HexGrid)
  have p: "spec_pixel 0 (- 1) = (- TILEW, - 125)"
    by (simp add: spec_pixel_def spec_col_def spec_mod2_def TILEH_def)
  from draw_tile_pixel_position [OF d] obtain w where
    w: "uses (append_use (make_use ''A'' 0 (- 1) 0) (new_group (HexGrid 2 False))) =
          (if (1::int) = 0 then w # uses (new_group (HexGrid 2 False))
           else uses (new_group (HexGrid 2 False)) @ [w])"
      "(use_x w, use_y w) = spec_pixel 0 (- 1)"
    by blast
  from w have "uses (append_use (make_use ''A'' 0 (- 1) 0) (new_group (HexGrid 2 False))) = [w] \<and>
      (use_x w, use_y w) = (- TILEW, - 125)"
    by (simp add: u p)
  with d show ?thesis by blast
qed

section \<open>Positions in binary64\<close>

lemma round_even_close: "\<bar>of_int (round_even y) - y\<bar> \<le> 1 / 2"
  unfolding round_even_def Let_def by (auto; linarith)

lemma ulp_pos: "0 < ulp x"
  by (simp add: ulp_def)

lemma ulp_le:
  assumes "x \<noteq> 0" "\<bar>x\<bar> \<le> B" "1 \<le> B"
  shows "ulp x \<le> B / 2 ^ 52"
proof -
  have "(2::real) powr 52 = 2 ^ 52"
    by simp
  then have p: "(2::real) powr (of_int k - 52) = 2 powr of_int k / 2 ^ 52" for k :: int
    by (simp only: powr_diff)
  show ?thesis
  proof (cases "- 1022 \<le> \<lfloor>log 2 \<bar>x\<bar>\<rfloor>")
    case True
    then have "max \<lfloor>log 2 \<bar>x\<bar>\<rfloor> (- 1022) = \<lfloor>log 2 \<bar>x\<bar>\<rfloor>"
      by (rule max_absorb1)
    then have "ulp x = 2 powr of_int \<lfloor>log 2 \<bar>x\<bar>\<rfloor> / 2 ^ 52"
      unfolding ulp_def by (simp only: of_int_diff of_int_numeral p)
    moreover have "2 powr of_int \<lfloor>log 2 \<bar>x\<bar>\<rfloor> \<le> 2 powr log 2 \<bar>x\<bar>"
      by (rule powr_mono) simp_all
    moreover have "2 powr log 2 \<bar>x\<bar> = \<bar>x\<bar>"
      using assms(1) by simp
    ultimately show ?thesis
      using assms(2) by (simp add: divide_right_mono)
  next
    case False
    then have "max \<lfloor>log 2 \<bar>x\<bar>\<rfloor> (- 1022) = - 1022"
      by (intro max_absorb2) simp
    then have "ulp x = 2 powr of_int (- 1022) / 2 ^ 52"
      unfolding ulp_def by (simp only: of_int_diff of_int_numeral p)
    moreover have "2 powr of_int (- 1022) \<le> (2::real) powr 0"
      by (rule powr_mono) simp_all
    ultimately show ?thesis
      using assms(3) by (simp add: divide_right_mono)
  qed
qed

lemma dbl_err:
  assumes "\<bar>x\<bar> \<le> B" "1 \<le> B"
  shows "\<bar>dbl x - x\<bar> \<le> B / 2 ^ 53"
proof (cases "x = 0")
  case True
  with assms(2) show ?thesis by (simp add: dbl_def)
next
  case False
  let ?u = "ulp x"
  have u: "0 < ?u" by (rule ulp_pos)
  have "dbl x - x = (of_int (round_even (x / ?u)) - x / ?u) * ?u"
    using False u by (simp add: dbl_def algebra_simps)
  then have "\<bar>dbl x - x\<bar> = \<bar>of_int (round_even (x / ?u)) - x / ?u\<bar> * ?u"
    using u by (simp add: abs_mult)
  also have "\<dots> \<le> 1 / 2 * ?u"
    using round_even_close [of "x / ?u"] u by (intro mult_right_mono) simp_all
  also have "\<dots> \<le> 1 / 2 * (B / 2 ^ 52)"
    using ulp_le [OF False assms] by simp
  also have "\<dots> = B / 2 ^ 53"
    by simp
  finally show ?thesis .
qed

lemma dbl_near:
  assumes "\<bar>x - y\<bar> \<le> d" "\<bar>x\<bar> \<le> B" "1 \<le> B"
  shows "\<bar>dbl x - y\<bar> \<le> d + B / 2 ^ 53"
  using dbl_err [OF assms(2,3)] assms(1) by linarith

lemma dbl_interval:
  assumes "lo \<le> x" "x \<le> hi" "\<bar>lo\<bar> \<le> B" "\<bar>hi\<bar> \<le> B" "1 \<le> B"
  shows "lo - B / 2 ^ 53 \<le> dbl x" "dbl x \<le> hi + B / 2 ^ 53"
proof -
  from assms(1-4) have "\<bar>x\<bar> \<le> B" by linarith
  from dbl_err [OF this assms(5)] assms(1,2)
  show "lo - B / 2 ^ 53 \<le> dbl x" "dbl x \<le> hi + B / 2 ^ 53"
    by linarith+
qed

lemma dbl_2: "199 / 100 \<le> dbl 2" "dbl 2 \<le> 201 / 100"
  using dbl_interval [of 2 2 2 2] by simp_all

lemma dbl_100: "99 \<le> dbl 100" "dbl 100 \<le> 101"
  using dbl_interval [of 100 100 100 100] by simp_all

lemma sqrt_dbl_3: "17 / 10 \<le> sqrt (dbl 3)" "sqrt (dbl 3) \<le> 18 / 10"
proof -
  from dbl_interval [of 3 3 3 3] have a: "29 / 10 \<le> dbl 3" "dbl 3 \<le> 31 / 10"
    by simp_all
  have "(17 / 10)\<^sup>2 \<le> dbl 3"
    using a(1) by (simp add: power2_eq_square)
  then show "17 / 10 \<le> sqrt (dbl 3)"
    by (rule real_le_rsqrt)
  have "dbl 3 \<le> (18 / 10)\<^sup>2"
    using a(2) by (simp add: power2_eq_square)
  then show "sqrt (dbl 3) \<le> 18 / 10"
    by (intro real_le_lsqrt) simp_all
qed

lemma TILEW_d_bounds: "81 \<le> TILEW_d" "TILEW_d \<le> 94"
proof -
  let ?b = "dbl (sqrt (dbl 3))"
  from dbl_interval [OF sqrt_dbl_3, of 2] have b: "169 / 100 \<le> ?b" "?b \<le> 181 / 100"
    by simp_all
  have "84 / 100 \<le> ?b / dbl 2"
    using b(1) dbl_2 by (simp add: pos_le_divide_eq)
  moreover have "?b / dbl 2 \<le> 91 / 100"
    using b(2) dbl_2 by (simp add: pos_divide_le_eq)
  ultimately have d: "83 / 100 \<le> dbl (?b / dbl 2)" "dbl (?b / dbl 2) \<le> 92 / 100"
    using dbl_interval [of "84 / 100" "?b / dbl 2" "91 / 100" 1] by simp_all
  have "83 / 100 * 99 \<le> dbl (?b / dbl 2) * dbl 100"
    using d(1) dbl_100(1) by (intro mult_mono) simp_all
  moreover have "dbl (?b / dbl 2) * dbl 100 \<le> 92 / 100 * 101"
    using d dbl_100 by (intro mult_mono) simp_all
  ultimately have "82 \<le> dbl (?b / dbl 2) * dbl 100" "dbl (?b / dbl 2) * dbl 100 \<le> 93"
    by simp_all
  from dbl_interval [OF this, of 128] show "81 \<le> TILEW_d" "TILEW_d \<le> 94"
    by (simp_all add: TILEW_d_def)
qed

lemma half_TILEW_d_bounds: "39 \<le> dbl (TILEW_d / dbl 2)" "dbl (TILEW_d / dbl 2) \<le> 49"
proof -
  have "40 \<le> TILEW_d / dbl 2"
    using TILEW_d_bounds(1) dbl_2 by (simp add: pos_le_divide_eq)
  moreover have "TILEW_d / dbl 2 \<le> 48"
    using TILEW_d_bounds(2) dbl_2 by (simp add: pos_divide_le_eq)
  ultimately show "39 \<le> dbl (TILEW_d / dbl 2)" "dbl (TILEW_d / dbl 2) \<le> 49"
    using dbl_interval [of 40 "TILEW_d / dbl 2" 48 64] by simp_all
qed

lemma mult_err:
  fixes a b w d M :: real
  assumes "\<bar>a - b\<bar> \<le> d" "\<bar>w\<bar> \<le> M"
  shows "\<bar>a * w - b * w\<bar> \<le> d * M"
proof -
  have "\<bar>a * w - b * w\<bar> = \<bar>a - b\<bar> * \<bar>w\<bar>"
    by (simp only: abs_mult [symmetric] left_diff_distrib)
  also have "\<dots> \<le> d * M"
    using assms by (intro mult_mono) simp_all
  finally show ?thesis .
qed

lemma abs_mult_le:
  fixes a w A M :: real
  assumes "\<bar>a\<bar> \<le> A" "\<bar>w\<bar> \<le> M"
  shows "\<bar>a * w\<bar> \<le> A * M"
  unfolding abs_mult using assms by (intro mult_mono) simp_all

lemma dbl_pixel_x_close:
  assumes "\<bar>axial_col q r\<bar> \<le> 2 ^ 46"
  shows "\<bar>dbl_pixel_x q r -
      (of_int (axial_col q r) * TILEW_d + of_int (r mod 2) * dbl (TILEW_d / dbl 2) -
       dbl (TILEW_d / dbl 2))\<bar> \<le> 6"
proof -
  let ?c = "real_of_int (axial_col q r)" and ?m = "real_of_int (r mod 2)"
  let ?W = TILEW_d and ?h = "dbl (TILEW_d / dbl 2)"
  note W = TILEW_d_bounds and h = half_TILEW_d_bounds
  have cb: "\<bar>?c\<bar> \<le> 2 ^ 46"
    using assms of_int_le_iff [of "\<bar>axial_col q r\<bar>" "2 ^ 46", where ?'a = real] by simp
  have W': "\<bar>?W\<bar> \<le> 94" and h': "\<bar>?h\<bar> \<le> 49"
    using W h by simp_all
  have cW: "\<bar>?c * ?W\<bar> \<le> 2 ^ 46 * 94"
    by (rule abs_mult_le [OF cb W'])
  \<comment> \<open>the column, converted and multiplied\<close>
  have c1: "\<bar>dbl ?c - ?c\<bar> \<le> 1 / 128"
    using dbl_err [OF cb] by simp
  have "\<bar>dbl ?c * ?W - ?c * ?W\<bar> \<le> 1 / 128 * 94"
    by (rule mult_err [OF c1 W'])
  then have a1: "\<bar>dbl ?c * ?W - ?c * ?W\<bar> \<le> 1"
    by simp
  with cW have "\<bar>dbl ?c * ?W\<bar> \<le> 2 ^ 53"
    by simp
  from dbl_near [OF a1 this] have p: "\<bar>dbl (dbl ?c * ?W) - ?c * ?W\<bar> \<le> 2"
    by simp
  \<comment> \<open>the half-width shift of an odd row\<close>
  have mb: "\<bar>?m\<bar> \<le> 1"
    by simp
  have m1: "\<bar>dbl ?m - ?m\<bar> \<le> 1 / 2 ^ 53"
    using dbl_err [OF mb] by simp
  have "\<bar>dbl ?m * ?h - ?m * ?h\<bar> \<le> 1 / 2 ^ 53 * 49"
    by (rule mult_err [OF m1 h'])
  then have t0: "\<bar>dbl ?m * ?h - ?m * ?h\<bar> \<le> 1"
    by simp
  have mh: "\<bar>?m * ?h\<bar> \<le> 1 * 49"
    by (rule abs_mult_le [OF mb h'])
  with t0 have "\<bar>dbl ?m * ?h\<bar> \<le> 64"
    by simp
  from dbl_near [OF t0 this] have t: "\<bar>dbl (dbl ?m * ?h) - ?m * ?h\<bar> \<le> 2"
    by simp
  \<comment> \<open>the sum and the final shift\<close>
  from p t have s0: "\<bar>dbl (dbl ?c * ?W) + dbl (dbl ?m * ?h) - (?c * ?W + ?m * ?h)\<bar> \<le> 4"
    by linarith
  from s0 cW mh have "\<bar>dbl (dbl ?c * ?W) + dbl (dbl ?m * ?h)\<bar> \<le> 2 ^ 53"
    by simp
  from dbl_near [OF s0 this]
  have s: "\<bar>dbl (dbl (dbl ?c * ?W) + dbl (dbl ?m * ?h)) - (?c * ?W + ?m * ?h)\<bar> \<le> 5"
    by simp
  then have x0: "\<bar>dbl (dbl (dbl ?c * ?W) + dbl (dbl ?m * ?h)) - ?h - (?c * ?W + ?m * ?h - ?h)\<bar> \<le> 5"
    by simp
  from s cW mh h' have "\<bar>dbl (dbl (dbl ?c * ?W) + dbl (dbl ?m * ?h)) - ?h\<bar> \<le> 2 ^ 53"
    by simp
  from dbl_near [OF x0 this] show ?thesis
    by (simp add: dbl_pixel_x_def Let_def)
qed

lemma row_factor_bounds:
  "74 \<le> dbl (of_int (100 * 3) / of_int 4)" "dbl (of_int (100 * 3) / of_int 4) \<le> 76"
  using dbl_interval [of 75 75 75 128] by simp_all

lemma half_TILEH_bounds:
  "49 \<le> dbl (of_int 100 / of_int 2)" "dbl (of_int 100 / of_int 2) \<le> 51"
  using dbl_interval [of 50 50 50 64] by simp_all

lemma dbl_pixel_y_close:
  assumes "\<bar>r\<bar> \<le> 2 ^ 45"
  shows "\<bar>dbl_pixel_y r -
      (of_int r * dbl (of_int (100 * 3) / of_int 4) - dbl (of_int 100 / of_int 2))\<bar> \<le> 3"
proof -
  let ?r = "real_of_int r"
  let ?k = "dbl (of_int (100 * 3) / of_int 4)" and ?c = "dbl (of_int 100 / of_int 2)"
  have rb: "\<bar>?r\<bar> \<le> 2 ^ 45"
    using assms of_int_le_iff [of "\<bar>r\<bar>" "2 ^ 45", where ?'a = real] by simp
  have k': "\<bar>?k\<bar> \<le> 76" and c': "\<bar>?c\<bar> \<le> 51"
    using row_factor_bounds half_TILEH_bounds by simp_all
  have rk: "\<bar>?r * ?k\<bar> \<le> 2 ^ 45 * 76"
    by (rule abs_mult_le [OF rb k'])
  have r1: "\<bar>dbl ?r - ?r\<bar> \<le> 1 / 256"
    using dbl_err [OF rb] by simp
  have "\<bar>dbl ?r * ?k - ?r * ?k\<bar> \<le> 1 / 256 * 76"
    by (rule mult_err [OF r1 k'])
  then have a: "\<bar>dbl ?r * ?k - ?r * ?k\<bar> \<le> 1"
    by simp
  with rk have "\<bar>dbl ?r * ?k\<bar> \<le> 2 ^ 53"
    by simp
  from dbl_near [OF a this] have p: "\<bar>dbl (dbl ?r * ?k) - ?r * ?k\<bar> \<le> 2"
    by simp
  then have y0: "\<bar>dbl (dbl ?r * ?k) - ?c - (?r * ?k - ?c)\<bar> \<le> 2"
    by simp
  from p rk c' have "\<bar>dbl (dbl ?r * ?k) - ?c\<bar> \<le> 2 ^ 53"
    by simp
  from dbl_near [OF y0 this] show ?thesis
    by (simp add: dbl_pixel_y_def Let_def)
qed

lemma region_col_bound:
  assumes "in_region n q r" "n \<le> 2 ^ 45"
  shows "\<bar>axial_col q r\<bar> \<le> 2 ^ 46" "\<bar>r\<bar> \<le> 2 ^ 45"
proof -
  from assms have q: "\<bar>q\<bar> \<le> 2 ^ 45" and r: "\<bar>r\<bar> \<le> 2 ^ 45"
    by (simp_all add: in_region_def)
  have "\<bar>(r - r mod 2) div 2\<bar> \<le> \<bar>r\<bar>"
    by presburger
  with q r show "\<bar>axial_col q r\<bar> \<le> 2 ^ 46"
    by (simp add: axial_col_def)
  show "\<bar>r\<bar> \<le> 2 ^ 45" by (rule r)
qed

lemma dbl_pixel_y_inj:
  assumes "\<bar>r1\<bar> \<le> 2 ^ 45" "\<bar>r2\<bar> \<le> 2 ^ 45" "r1 \<noteq> r2"
  shows "dbl_pixel_y r1 \<noteq> dbl_pixel_y r2"
proof -
  let ?k = "dbl (of_int (100 * 3) / of_int 4)"
  from assms(3) have "1 \<le> \<bar>real_of_int r1 - real_of_int r2\<bar>"
    by linarith
  then have "1 * 74 \<le> \<bar>real_of_int r1 - real_of_int r2\<bar> * \<bar>?k\<bar>"
    using row_factor_bounds(1) by (intro mult_mono) simp_all
  then have "74 \<le> \<bar>real_of_int r1 * ?k - real_of_int r2 * ?k\<bar>"
    by (simp only: abs_mult [symmetric] left_diff_distrib mult_1)
  with dbl_pixel_y_close [OF assms(1)] dbl_pixel_y_close [OF assms(2)] show ?thesis
    by linarith
qed

lemma dbl_pixel_x_inj:
  assumes "\<bar>axial_col q1 r\<bar> \<le> 2 ^ 46" "\<bar>axial_col q2 r\<bar> \<le> 2 ^ 46" "q1 \<noteq> q2"
  shows "dbl_pixel_x q1 r \<noteq> dbl_pixel_x q2 r"
proof -
  have "axial_col q1 r - axial_col q2 r = q1 - q2"
    by (simp add: axial_col_def)
  with assms(3) have "1 \<le> \<bar>axial_col q1 r - axial_col q2 r\<bar>"
    by simp
  then have "1 \<le> \<bar>real_of_int (axial_col q1 r) - real_of_int (axial_col q2 r)\<bar>"
    by linarith
  then have "1 * 81 \<le> \<bar>real_of_int (axial_col q1 r) - real_of_int (axial_col q2 r)\<bar> * \<bar>TILEW_d\<bar>"
    using TILEW_d_bounds(1) by (intro mult_mono) simp_all
  then have "81 \<le> \<bar>real_of_int (axial_col q1 r) * TILEW_d - real_of_int (axial_col q2 r) * TILEW_d\<bar>"
    by (simp only: abs_mult [symmetric] left_diff_distrib mult_1)
  with dbl_pixel_x_close [OF assms(1)] dbl_pixel_x_close [OF assms(2)] show ?thesis
    by linarith
qed

text \<open>
  Rounding at the end of the 53 bits: \<open>2 ^ 53 + 1\<close> lies halfway between two doubles and
  goes down to the even one, \<open>2 ^ 53 + 3\<close> goes up.
\<close>

lemma ulp_binade:
  assumes "2 ^ 53 \<le> x" "x < 2 ^ 54"
  shows "ulp x = 2"
proof -
  have "(2::real) powr of_int 53 = 2 ^ 53" "(2::real) powr of_int (53 + 1) = 2 ^ 54"
    by simp_all
  with assms have "(2::real) powr of_int 53 \<le> x \<and> x < 2 powr of_int (53 + 1)"
    by simp
  moreover from assms(1) have "0 < x"
    by simp
  ultimately have "\<lfloor>log 2 x\<rfloor> = 53"
    using floor_log_eq_powr_iff [of x 2 53] by simp
  moreover from \<open>0 < x\<close> have "\<bar>x\<bar> = x"
    by simp
  ultimately show ?thesis
    by (simp add: ulp_def)
qed

lemma dbl_exact:
  assumes "ulp x = u" "round_even (x / u) = k" "x \<noteq> 0"
  shows "dbl x = of_int k * u"
  using assms by (simp add: dbl_def)

lemma dbl_2_53: "dbl (2 ^ 53) = 2 ^ 53"
proof -
  have u: "ulp (2 ^ 53) = 2"
    by (rule ulp_binade) simp_all
  have r: "round_even (2 ^ 53 / 2) = 2 ^ 52"
    by (simp add: round_even_def)
  have "dbl (2 ^ 53) = of_int (2 ^ 52) * 2"
    by (rule dbl_exact [OF u r]) simp
  then show ?thesis
    by simp
qed

lemma dbl_2_53_1: "dbl (2 ^ 53 + 1) = 2 ^ 53"
proof -
  have u: "ulp (2 ^ 53 + 1) = 2"
    by (rule ulp_binade) simp_all
  have "((2::real) ^ 53 + 1) / 2 = 2 ^ 52 + 1 / 2"
    by simp
  moreover have "\<lfloor>(2::real) ^ 52 + 1 / 2\<rfloor> = 2 ^ 52"
    by (rule floor_unique) simp_all
  ultimately have r: "round_even ((2 ^ 53 + 1) / 2) = 2 ^ 52"
    by (simp add: round_even_def Let_def)
  have "dbl (2 ^ 53 + 1) = of_int (2 ^ 52) * 2"
    by (rule dbl_exact [OF u r]) simp
  then show ?thesis
    by simp
qed

lemma dbl_2_53_3: "dbl (2 ^ 53 + 3) = 2 ^ 53 + 4"
proof -
  have u: "ulp (2 ^ 53 + 3) = 2"
    by (rule ulp_binade) simp_all
  have "((2::real) ^ 53 + 3) / 2 = 2 ^ 52 + 1 + 1 / 2"
    by simp
  moreover have "\<lfloor>(2::real) ^ 52 + 1 + 1 / 2\<rfloor> = 2 ^ 52 + 1"
    by (rule floor_unique) simp_all
  ultimately have r: "round_even ((2 ^ 53 + 3) / 2) = 2 ^ 52 + 2"
    by (simp add: round_even_def Let_def)
  have "dbl (2 ^ 53 + 3) = of_int (2 ^ 52 + 2) * 2"
    by (rule dbl_exact [OF u r]) simp
  then show ?thesis
    by simp
qed

text \<open>
  On grids of size up to \<open>2 ^ 45\<close> the rounded position determines the cell, so two cells
  have the same rounded position exactly when they have the same exact one: there the exact
  position \<open>pixel_x\<close>, \<open>pixel_y\<close> identifies the cell of a placement as the stored doubles do.
\<close>

lemma dbl_pixel_inj_region:
  assumes "n \<le> 2 ^ 45" "in_region n q1 r1" "in_region n q2 r2" "(q1, r1) \<noteq> (q2, r2)"
  shows "(dbl_pixel_x q1 r1, dbl_pixel_y r1) \<noteq> (dbl_pixel_x q2 r2, dbl_pixel_y r2)"
proof (cases "r1 = r2")
  case True
  with assms(4) have "q1 \<noteq> q2" by simp
  with True show ?thesis
    using dbl_pixel_x_inj [of q1 r1 q2] region_col_bound(1) [OF assms(2,1)]
      region_col_bound(1) [OF assms(3,1)]
    by simp
next
  case False
  then show ?thesis
    using dbl_pixel_y_inj [of r1 r2] region_col_bound(2) [OF assms(2,1)]
      region_col_bound(2) [OF assms(3,1)]
    by simp
qed

lemma dbl_position_same_cell:
  assumes "n \<le> 2 ^ 45" "in_region n q1 r1" "in_region n q2 r2"
  shows "(dbl_pixel_x q1 r1, dbl_pixel_y r1) = (dbl_pixel_x q2 r2, dbl_pixel_y r2) \<longleftrightarrow>
         (pixel_x q1 r1, pixel_y r1) = (pixel_x q2 r2, pixel_y r2)"
proof (cases "(q1, r1) = (q2, r2)")
  case True
  then show ?thesis by simp
next
  case False
  from dbl_pixel_inj_region [OF assms False] have "(dbl_pixel_x q1 r1, dbl_pixel_y r1) \<noteq> (dbl_pixel_x q2 r2, dbl_pixel_y r2)" .
  moreover from False have "(pixel_x q1 r1, pixel_y r1) \<noteq> (pixel_x q2 r2, pixel_y r2)"
    using pixel_inj [of q1 r1 q2 r2] by auto
  ultimately show ?thesis by blast
qed

text \<open>
  Claim C7 (amended). In the binary64 arithmetic of the code the axial-to-pixel conversion is
  injective on the coordinate set of every grid of size up to \<open>2 ^ 45\<close>: two distinct
  coordinates with \<open>|q|, |r|, |q + r| \<le> size - 1\<close> get different pixel positions. It is not
  injective for every size: the columns \<open>2 ^ 53\<close> and \<open>2 ^ 53 + 1\<close> convert to the same
  double.
\<close>
theorem dbl_pixel_injective:
  assumes "n \<le> 2 ^ 45" "in_region n q1 r1" "in_region n q2 r2" "(q1, r1) \<noteq> (q2, r2)"
  shows "(dbl_pixel_x q1 r1, dbl_pixel_y r1) \<noteq> (dbl_pixel_x q2 r2, dbl_pixel_y r2)"
  using assms by (rule dbl_pixel_inj_region)

theorem dbl_pixel_injective_witness:
  "(2::int) \<le> 2 ^ 45 \<and> in_region 2 0 (- 1) \<and> in_region 2 1 (- 1) \<and>
   ((0, - 1) :: int \<times> int) \<noteq> (1, - 1) \<and>
   (dbl_pixel_x 0 (- 1), dbl_pixel_y (- 1)) \<noteq> (dbl_pixel_x 1 (- 1), dbl_pixel_y (- 1))"
proof -
  have n: "(2::int) \<le> 2 ^ 45"
    by simp
  have a: "in_region 2 0 (- 1)" and b: "in_region 2 1 (- 1)"
    by (simp_all add: in_region_def)
  have c: "((0, - 1) :: int \<times> int) \<noteq> (1, - 1)"
    by simp
  show ?thesis
    by (intro conjI n a b c dbl_pixel_injective [OF n a b c])
qed

theorem dbl_pixel_injective_counterexample:
  "in_region (2 ^ 53 + 2) (2 ^ 53) 0 \<and> in_region (2 ^ 53 + 2) (2 ^ 53 + 1) 0 \<and>
   ((2 ^ 53, 0) :: int \<times> int) \<noteq> (2 ^ 53 + 1, 0) \<and>
   (dbl_pixel_x (2 ^ 53) 0, dbl_pixel_y 0) = (dbl_pixel_x (2 ^ 53 + 1) 0, dbl_pixel_y 0)"
proof -
  have "dbl (of_int (axial_col (2 ^ 53) 0)) = dbl (of_int (axial_col (2 ^ 53 + 1) 0))"
    using dbl_2_53 dbl_2_53_1 by (simp add: axial_col_def)
  then have "dbl_pixel_x (2 ^ 53) 0 = dbl_pixel_x (2 ^ 53 + 1) 0"
    by (simp only: dbl_pixel_x_def Let_def)
  then show ?thesis
    by (simp add: in_region_def)
qed

section \<open>Placements of one call of draw\<close>

lemma draw_outcome:
  "draw g rnd = Inr (g', rnd') \<Longrightarrow> draw_error g rnd = None \<and> drawn g rnd = g'"
  by (simp add: draw_error_def drawn_def)

lemma draw_error_None:
  "draw_error g rnd = None \<Longrightarrow> \<exists>rnd'. draw g rnd = Inr (drawn g rnd, rnd')"
  by (auto simp: draw_error_def drawn_def split: sum.splits)

lemma all2_related: "list_all2 R us ys \<Longrightarrow> u \<in> set us \<Longrightarrow> \<exists>y \<in> set ys. R u y"
  by (induction rule: list_all2_induct) auto

lemma all2_placed:
  assumes "list_all2 (\<lambda>u (q, r). placement_for G q r u) us (filter P cs)" "u \<in> set us"
  shows "\<exists>(q, r) \<in> set cs. placement_for G q r u"
  using all2_related [OF assms] by auto

lemma draw_uses_placed:
  assumes "draw g rnd = Inr (g', rnd')" "fresh g" "u \<in> set (uses g')"
  shows "\<exists>(q, r) \<in> set (cells (size_g g)). placement_for g q r u"
proof -
  from draw_result [OF assms(1)] uses_fresh [OF assms(2)]
  obtain cu ou where u: "uses g' = rev cu @ ou"
    and cu: "list_all2 (\<lambda>u (q, r). placement_for g q r u) cu
          (filter (case_prod (corner_cell g)) (cells (size_g g)))"
    and ou: "list_all2 (\<lambda>u (q, r). placement_for g q r u) ou
          (filter (\<lambda>(q, r). edge_cell g q r \<or> interior_cell g q r) (cells (size_g g)))"
    by auto
  from assms(3) u have "u \<in> set cu \<or> u \<in> set ou" by auto
  then show ?thesis
    using all2_placed [OF cu] all2_placed [OF ou] by blast
qed

lemma length_filter_one: "length (filter P xs) = 1 \<Longrightarrow> \<exists>x. filter P xs = [x] \<and> x \<in> set xs \<and> P x"
proof -
  assume "length (filter P xs) = 1"
  then obtain x where x: "filter P xs = [x]"
    by (cases "filter P xs") auto
  then have "x \<in> set (filter P xs)" by simp
  then have "x \<in> set xs \<and> P x" by simp
  with x show ?thesis by blast
qed

lemma draw_placement:
  assumes "draw g rnd = Inr (g', rnd')" "fresh g" "placed_cell g q r"
  shows "\<exists>u. filter (at_cell q r) (uses g') = [u] \<and> placement_for g q r u"
proof -
  have "length (filter (at_cell q r) (uses g')) = 1"
    using draw_count [OF assms(1,2), of q r] assms(3) by simp
  then obtain u where u: "filter (at_cell q r) (uses g') = [u]" "u \<in> set (uses g')" "at_cell q r u"
    using length_filter_one by blast
  from draw_uses_placed [OF assms(1,2) u(2)]
  obtain q' r' where "placement_for g q' r' u" by auto
  with u(3) have "placement_for g q r u"
    using placement_for_at_cell [of g q' r' u q r] by simp
  with u(1) show ?thesis by blast
qed

lemma placed_region: "placed_cell g q r \<Longrightarrow> in_region (size_g g) q r"
  by (auto simp: placed_cell_def corner_cell_def edge_cell_def interior_cell_def)

lemma placed_edgetiles:
  "edgetiles g \<noteq> [] \<Longrightarrow> placed_cell g q r \<longleftrightarrow> in_region (size_g g) q r"
  by (auto simp: placed_cell_def corner_cell_def edge_cell_def interior_cell_def)

lemma fresh_add_symbol [simp]: "fresh (add_symbol t g) = fresh g"
  by (simp add: fresh_def add_symbol_def find_g_append split: option.splits)

lemma fresh_add_tile [simp]: "fresh (add_tile t g) = fresh g"
  by (simp add: add_tile_def) (simp add: fresh_def)

lemma fresh_add_edge_tile [simp]: "fresh (add_edge_tile t g) = fresh g"
  by (simp add: add_edge_tile_def) (simp add: fresh_def)

lemma fresh_add_corner_tile [simp]: "fresh (add_corner_tile t g) = fresh g"
  by (simp add: add_corner_tile_def) (simp add: fresh_def)

lemmas eval_defs =
  draw_def placements_def drawn_def draw_error_def reg_defs range_size_def upto_rec1 place_cell_def
  random_choice_def random_randint_def rng_next_def draw_tile_def corner_rotate_def
  edge_rotate_def Let_def zero_rng_def tile_A_def tile_edge_def tile_corner_def uses_def

lemma draw_fresh:
  assumes "fresh g" "tiles g \<noteq> [] \<or> size_g g \<le> 1"
  shows "draw_error g rnd = None"
    and "length (filter (at_cell q r) (placements g rnd)) = (if placed_cell g q r then 1 else 0)"
    and "placed_cell g q r \<Longrightarrow>
         \<exists>u. filter (at_cell q r) (placements g rnd) = [u] \<and> placement_for g q r u"
proof -
  from draw_succeeds [OF assms(2), of rnd] obtain g' rnd' where d: "draw g rnd = Inr (g', rnd')"
    by blast
  note o = draw_outcome [OF d]
  show "draw_error g rnd = None" using o by simp
  show "length (filter (at_cell q r) (placements g rnd)) = (if placed_cell g q r then 1 else 0)"
    using draw_count [OF d assms(1)] o by (simp add: placements_def)
  show "\<exists>u. filter (at_cell q r) (placements g rnd) = [u] \<and> placement_for g q r u"
    if "placed_cell g q r"
    using draw_placement [OF d assms(1) that] o by (simp add: placements_def)
qed

text \<open>
  Claim C1 (amended). For every grid with a non-empty interior pool, one call of \<open>draw\<close> on a
  freshly built grid succeeds and produces exactly one placement for every coordinate of the
  hexagonal region that is interior, or on the boundary while the edge pool is non-empty, or on
  the boundary with one of \<open>q, r, s\<close> equal to 0 while the corner pool is non-empty, and no
  placement for any other coordinate. No placed coordinate lies outside the region, and with
  a non-empty edge pool every coordinate of the region is placed.
\<close>
theorem draw_one_placement_per_placed_cell:
  assumes "fresh g" "1 \<le> size_g g" "tiles g \<noteq> []"
  shows "draw_error g rnd = None \<and>
     length (filter (at_cell q r) (placements g rnd)) = (if placed_cell g q r then 1 else 0) \<and>
     (placed_cell g q r \<longrightarrow> in_region (size_g g) q r) \<and>
     (edgetiles g \<noteq> [] \<longrightarrow> placed_cell g q r = in_region (size_g g) q r)"
proof -
  from assms(3) have t: "tiles g \<noteq> [] \<or> size_g g \<le> 1" by simp
  show ?thesis
    using draw_fresh(1) [OF assms(1) t] draw_fresh(2) [OF assms(1) t]
      placed_region [of g q r] placed_edgetiles [of g q r]
    by simp
qed

theorem draw_one_placement_per_placed_cell_witness:
  "fresh (grid_full 2) \<and> 1 \<le> size_g (grid_full 2) \<and> tiles (grid_full 2) \<noteq> [] \<and>
   in_region (size_g (grid_full 2)) 1 0 \<and>
   draw_error (grid_full 2) zero_rng = None \<and>
   length (filter (at_cell 1 0) (placements (grid_full 2) zero_rng)) = 1"
proof -
  have f: "fresh (grid_full 2)"
    by (simp add: grid_full_def fresh_HexGrid)
  have n: "1 \<le> size_g (grid_full 2)" and t: "tiles (grid_full 2) \<noteq> []"
    and e: "edgetiles (grid_full 2) \<noteq> []" and s: "size_g (grid_full 2) = 2"
    by (simp_all add: grid_full_def eval_defs)
  have r: "in_region 2 1 0"
    by (simp add: in_region_def)
  from draw_one_placement_per_placed_cell [OF f n t, of zero_rng 1 0] e r s
  show ?thesis using f n t by simp
qed

theorem draw_one_placement_per_placed_cell_counterexample:
  "1 \<le> size_g grid_A2 \<and> tiles grid_A2 \<noteq> [] \<and> in_region (size_g grid_A2) 1 0 \<and>
   draw_error grid_A2 zero_rng = None \<and>
   length (filter (at_cell 1 0) (placements grid_A2 zero_rng)) = 0"
proof -
  have p: "placements grid_A2 zero_rng = [make_use ''A'' 0 0 0]"
    by (simp add: grid_A2_def eval_defs)
  have e: "draw_error grid_A2 zero_rng = None"
    by (simp add: grid_A2_def eval_defs)
  have c: "1 \<le> size_g grid_A2 \<and> tiles grid_A2 \<noteq> [] \<and> in_region (size_g grid_A2) 1 0"
    by (simp add: grid_A2_def eval_defs in_region_def)
  show ?thesis
    using c e by (simp add: p at_cell_make_use)
qed

section \<open>Boundary cells: empty pools and fixed rotations\<close>

lemma placement_for_placed: "placement_for g q r u \<Longrightarrow> placed_cell g q r"
  by (auto simp: placement_for_def placed_cell_def)

lemma draw_no_placed_cell:
  assumes "draw g rnd = Inr (g', rnd')" "fresh g" "\<forall>q r. \<not> placed_cell g q r"
  shows "uses g' = []"
proof -
  have "False" if "u \<in> set (uses g')" for u
  proof -
    from draw_uses_placed [OF assms(1,2) that] obtain q r where "placement_for g q r u"
      by auto
    with assms(3) show False
      using placement_for_placed by blast
  qed
  then show ?thesis
    by (cases "uses g'") force+
qed

lemma draw_size_one:
  assumes "draw g rnd = Inr (g', rnd')" "fresh g" "size_g g = 1"
  shows "filter (at_cell 0 0) (uses g') = uses g'"
proof -
  have "at_cell 0 0 u" if "u \<in> set (uses g')" for u
  proof -
    from draw_uses_placed [OF assms(1,2) that] obtain q r
      where c: "(q, r) \<in> set (cells (size_g g))" and p: "placement_for g q r u"
      by auto
    from c assms(3) have "q = 0 \<and> r = 0"
      by (simp add: set_cells)
    with p show ?thesis
      using placement_for_at_cell [of g q r u 0 0] by simp
  qed
  then show ?thesis by simp
qed

lemma placement_for_edge:
  assumes "placement_for g q r u" "edge_cell g q r"
  shows "\<exists>t \<in> set (edgetiles g).
     u = make_use (sym_id t) q r (edge_rotate (size_g g) q r (- q - r))"
  using assms cell_cases [of g q r] by (auto simp: placement_for_def)

lemma placement_for_corner:
  assumes "placement_for g q r u" "corner_cell g q r"
  shows "\<exists>t \<in> set (cornertiles g).
     u = make_use (sym_id t) q r (corner_rotate (size_g g) q r (- q - r))"
  using assms cell_cases [of g q r] by (auto simp: placement_for_def)

lemma edge_default:
  assumes "edge_cell g q r" "r \<noteq> size_g g - 1" "r \<noteq> - (size_g g - 1)"
    "- q - r \<noteq> size_g g - 1" "q \<noteq> - (size_g g - 1)" "q \<noteq> size_g g - 1"
  shows "- q - r = - (size_g g - 1)"
  using assms unfolding edge_cell_def in_region_def on_border_def
  by arith

lemma corner_default:
  assumes "corner_cell g q r"
    "\<not> (q = 0 \<and> - q - r = size_g g - 1)" "\<not> (- q - r = 0 \<and> q = size_g g - 1)"
    "\<not> (q = 0 \<and> r = size_g g - 1)" "\<not> (r = 0 \<and> - q - r = size_g g - 1)"
    "\<not> (- q - r = 0 \<and> r = size_g g - 1)"
  shows "r = 0 \<and> q = size_g g - 1"
proof -
  from assms(1) have b: "max (max \<bar>q\<bar> \<bar>r\<bar>) \<bar>- q - r\<bar> = size_g g - 1"
    and z: "q = 0 \<or> r = 0 \<or> - q - r = 0"
    by (simp_all add: corner_cell_def on_border_def zero_coord_def)
  from z show ?thesis
  proof (elim disjE)
    assume "q = 0"
    with b assms(2,4) show ?thesis by (simp; arith)
  next
    assume "r = 0"
    with b assms(5) show ?thesis by (simp; arith)
  next
    assume "- q - r = 0"
    then have "r = - q" by arith
    with b assms(3,6) show ?thesis by (simp; arith)
  qed
qed

text \<open>
  Claim C2 (amended). With a non-empty interior pool (or no interior cell), \<open>draw\<close> does not
  fail when the edge or corner pool is empty. A boundary cell with a zero coordinate falls
  through to the edge classification when the corner pool is empty and the edge pool is not;
  a boundary cell left with no non-empty pool gets no placement: it does not fall through to
  the interior placement. In particular, for size 1 with only interior tiles registered,
  \<open>draw\<close> succeeds and produces no placement at all.
\<close>
theorem empty_pool_boundary_cell:
  assumes "fresh g" "tiles g \<noteq> [] \<or> size_g g \<le> 1"
    and "in_region (size_g g) q r" "on_border (size_g g) q r"
  shows "draw_error g rnd = None \<and>
     (cornertiles g = [] \<and> edgetiles g \<noteq> [] \<longrightarrow>
        (\<exists>t \<in> set (edgetiles g). filter (at_cell q r) (placements g rnd) =
           [make_use (sym_id t) q r (edge_rotate (size_g g) q r (- q - r))])) \<and>
     (edgetiles g = [] \<and> (cornertiles g = [] \<or> \<not> zero_coord q r) \<longrightarrow>
        filter (at_cell q r) (placements g rnd) = []) \<and>
     (size_g g = 1 \<and> edgetiles g = [] \<and> cornertiles g = [] \<longrightarrow> placements g rnd = [])"
proof -
  from draw_succeeds [OF assms(2), of rnd] obtain g' rnd' where d: "draw g rnd = Inr (g', rnd')"
    by blast
  note o = draw_outcome [OF d]
  have 1: "\<exists>t \<in> set (edgetiles g). filter (at_cell q r) (placements g rnd) =
           [make_use (sym_id t) q r (edge_rotate (size_g g) q r (- q - r))]"
    if "cornertiles g = []" "edgetiles g \<noteq> []"
  proof -
    have e: "edge_cell g q r"
      using that assms(3,4) by (simp add: edge_cell_def)
    then have "placed_cell g q r"
      by (simp add: placed_cell_def)
    from draw_placement [OF d assms(1) this] obtain u
      where u: "filter (at_cell q r) (uses g') = [u]" "placement_for g q r u"
      by blast
    from placement_for_edge [OF u(2) e] u(1) o show ?thesis
      by (auto simp: placements_def)
  qed
  have 2: "filter (at_cell q r) (placements g rnd) = []"
    if "edgetiles g = [] \<and> (cornertiles g = [] \<or> \<not> zero_coord q r)"
  proof -
    have "\<not> placed_cell g q r"
      using that assms(4)
      by (auto simp: placed_cell_def corner_cell_def edge_cell_def interior_cell_def)
    then have "length (filter (at_cell q r) (uses g')) = 0"
      using draw_count [OF d assms(1), of q r] by simp
    then show ?thesis
      using o by (simp add: placements_def)
  qed
  have 3: "placements g rnd = []" if "size_g g = 1 \<and> edgetiles g = [] \<and> cornertiles g = []"
  proof -
    have "\<forall>q r. \<not> placed_cell g q r"
      using that no_interior [of g]
      by (simp add: placed_cell_def corner_cell_def edge_cell_def)
    from draw_no_placed_cell [OF d assms(1) this] o show ?thesis
      by (simp add: placements_def)
  qed
  from 1 2 3 o show ?thesis by blast
qed

theorem empty_pool_boundary_cell_witness:
  "fresh grid_AE2 \<and> tiles grid_AE2 \<noteq> [] \<and>
   in_region (size_g grid_AE2) 0 (- 1) \<and> on_border (size_g grid_AE2) 0 (- 1) \<and>
   cornertiles grid_AE2 = [] \<and> edgetiles grid_AE2 \<noteq> [] \<and>
   draw_error grid_AE2 zero_rng = None \<and>
   filter (at_cell 0 (- 1)) (placements grid_AE2 zero_rng) = [make_use ''edge'' 0 (- 1) (- 1)]"
proof -
  have f: "fresh grid_AE2"
    by (simp add: grid_AE2_def fresh_HexGrid)
  have n: "tiles grid_AE2 \<noteq> []"
    and c: "cornertiles grid_AE2 = []" and e: "edgetiles grid_AE2 = [tile_edge]"
    and s: "size_g grid_AE2 = 2"
    by (simp_all add: grid_AE2_def grid_defs)
  from n have t: "tiles grid_AE2 \<noteq> [] \<or> size_g grid_AE2 \<le> 1"
    by simp
  have r: "in_region (size_g grid_AE2) 0 (- 1)" and b: "on_border (size_g grid_AE2) 0 (- 1)"
    by (simp_all add: s in_region_def on_border_def)
  have rot: "edge_rotate 2 0 (- 1) 1 = - 1"
    by (simp add: edge_rotate_def)
  from empty_pool_boundary_cell [OF f t r b, of zero_rng] c e
  have "draw_error grid_AE2 zero_rng = None \<and>
     filter (at_cell 0 (- 1)) (placements grid_AE2 zero_rng) = [make_use ''edge'' 0 (- 1) (- 1)]"
    by (simp add: s rot tile_edge_def)
  with f n r b c e show ?thesis by simp
qed

theorem empty_pool_boundary_cell_counterexample:
  "size_g grid_A1 = 1 \<and> tiles grid_A1 = [tile_A] \<and> edgetiles grid_A1 = [] \<and>
   cornertiles grid_A1 = [] \<and> draw_error grid_A1 zero_rng = None \<and>
   placements grid_A1 zero_rng = [] \<and>
   placements grid_A1 zero_rng \<noteq> [make_use ''A'' 0 0 0]"
  by (simp add: grid_A1_def eval_defs)

text \<open>
  Claim C3. For every edge-classified cell (a boundary cell that is not corner-classified,
  with a non-empty edge pool) the rotation emitted by \<open>draw\<close> is fixed by \<open>(q, r, size)\<close>
  alone, whatever the random source, by the first matching rule of: \<open>r = size - 1\<close> gives 2;
  \<open>r = -(size - 1)\<close> gives 5, that is \<open>-1\<close> modulo 6 (the factor written is \<open>-1\<close>);
  \<open>s = size - 1\<close> gives 4; \<open>q = -(size - 1)\<close> gives 3; \<open>q = size - 1\<close> gives 0; otherwise
  (then \<open>s = -(size - 1)\<close>) the default 1.
\<close>
theorem edge_rotation_by_position:
  assumes "fresh g" "draw_error g rnd = None" "edge_cell g q r"
  shows "\<exists>u. filter (at_cell q r) (placements g rnd) = [u] \<and>
     use_rotation u =
       (if r = size_g g - 1 then 2
        else if r = - (size_g g - 1) then - 1
        else if - q - r = size_g g - 1 then 4
        else if q = - (size_g g - 1) then 3
        else if q = size_g g - 1 then 0
        else 1) \<and>
     use_rotation u mod 6 =
       (if r = size_g g - 1 then 2
        else if r = - (size_g g - 1) then 5
        else if - q - r = size_g g - 1 then 4
        else if q = - (size_g g - 1) then 3
        else if q = size_g g - 1 then 0
        else 1) \<and>
     (r \<noteq> size_g g - 1 \<and> r \<noteq> - (size_g g - 1) \<and> - q - r \<noteq> size_g g - 1 \<and>
      q \<noteq> - (size_g g - 1) \<and> q \<noteq> size_g g - 1 \<longrightarrow> - q - r = - (size_g g - 1))"
proof -
  from draw_error_None [OF assms(2)] obtain rnd'
    where d: "draw g rnd = Inr (drawn g rnd, rnd')" by blast
  from assms(3) have "placed_cell g q r"
    by (simp add: placed_cell_def)
  from draw_placement [OF d assms(1) this] obtain u
    where u: "filter (at_cell q r) (placements g rnd) = [u]" "placement_for g q r u"
    by (auto simp: placements_def)
  from placement_for_edge [OF u(2) assms(3)]
  have rot: "use_rotation u = edge_rotate (size_g g) q r (- q - r)"
    by (auto simp: use_rotation_make_use)
  have "use_rotation u =
       (if r = size_g g - 1 then 2
        else if r = - (size_g g - 1) then - 1
        else if - q - r = size_g g - 1 then 4
        else if q = - (size_g g - 1) then 3
        else if q = size_g g - 1 then 0
        else 1)"
    unfolding rot edge_rotate_def by simp
  moreover from this have "use_rotation u mod 6 =
       (if r = size_g g - 1 then 2
        else if r = - (size_g g - 1) then 5
        else if - q - r = size_g g - 1 then 4
        else if q = - (size_g g - 1) then 3
        else if q = size_g g - 1 then 0
        else 1)"
    by simp
  ultimately show ?thesis
    using u(1) edge_default [OF assms(3)] by blast
qed

theorem edge_rotation_by_position_witness:
  "fresh (grid_full 3) \<and> draw_error (grid_full 3) zero_rng = None \<and>
   edge_cell (grid_full 3) 1 (- 2) \<and>
   (\<exists>u. filter (at_cell 1 (- 2)) (placements (grid_full 3) zero_rng) = [u] \<and>
      use_rotation u = - 1 \<and> use_rotation u mod 6 = 5)"
proof -
  have f: "fresh (grid_full 3)"
    by (simp add: grid_full_def fresh_HexGrid)
  have s: "size_g (grid_full 3) = 3" and t: "tiles (grid_full 3) \<noteq> []"
    and c: "cornertiles (grid_full 3) \<noteq> []" and e: "edgetiles (grid_full 3) \<noteq> []"
    by (simp_all add: grid_full_def grid_defs)
  from t have "tiles (grid_full 3) \<noteq> [] \<or> size_g (grid_full 3) \<le> 1" by simp
  from draw_fresh(1) [OF f this] have d: "draw_error (grid_full 3) zero_rng = None" .
  have ec: "edge_cell (grid_full 3) 1 (- 2)"
    by (simp add: edge_cell_def in_region_def on_border_def zero_coord_def s e)
  from edge_rotation_by_position [OF f d ec] f d ec show ?thesis
    by (simp add: s)
qed

lemma corner_rotate_cases:
  assumes "n \<noteq> 1"
  shows "q = 0 \<and> - q - r = n - 1 \<longrightarrow> corner_rotate n q r (- q - r) = 4"
    and "- q - r = 0 \<and> q = n - 1 \<longrightarrow> corner_rotate n q r (- q - r) = 5"
    and "q = 0 \<and> r = n - 1 \<longrightarrow> corner_rotate n q r (- q - r) = 1"
    and "r = 0 \<and> - q - r = n - 1 \<longrightarrow> corner_rotate n q r (- q - r) = 3"
    and "- q - r = 0 \<and> r = n - 1 \<longrightarrow> corner_rotate n q r (- q - r) = 2"
    and "r = 0 \<and> q = n - 1 \<longrightarrow> corner_rotate n q r (- q - r) = 0"
  using assms by (simp_all add: corner_rotate_def)

lemma corner_rotate_zero:
  assumes "corner_rotate n q r (- q - r) = 0"
    and "\<not> (q = 0 \<and> - q - r = n - 1) \<Longrightarrow> \<not> (- q - r = 0 \<and> q = n - 1) \<Longrightarrow>
         \<not> (q = 0 \<and> r = n - 1) \<Longrightarrow> \<not> (r = 0 \<and> - q - r = n - 1) \<Longrightarrow>
         \<not> (- q - r = 0 \<and> r = n - 1) \<Longrightarrow> r = 0 \<and> q = n - 1"
  shows "r = 0 \<and> q = n - 1"
  using assms(1) by (intro assms(2)) (simp_all add: corner_rotate_def split: if_splits)

text \<open>
  Claim C4. For every corner-classified cell (a boundary cell with one of \<open>q, r, s\<close> equal to
  0, with a non-empty corner pool) the rotation emitted by \<open>draw\<close> is fixed by the first
  matching rule of: \<open>(q = 0, s = size - 1)\<close> gives 4; \<open>(s = 0, q = size - 1)\<close> gives 5;
  \<open>(q = 0, r = size - 1)\<close> gives 1; \<open>(r = 0, s = size - 1)\<close> gives 3; \<open>(s = 0, r = size - 1)\<close>
  gives 2; the unbranched default 0 is the case \<open>(r = 0, q = size - 1)\<close>. For a size other than
  1 the six cases exclude one another; for size 1 the single cell matches the first rule and
  the document holds exactly one placement.
\<close>
theorem corner_rotation_by_position:
  assumes "fresh g" "draw_error g rnd = None" "corner_cell g q r"
  shows "\<exists>u. filter (at_cell q r) (placements g rnd) = [u] \<and>
     use_rotation u =
       (if q = 0 \<and> - q - r = size_g g - 1 then 4
        else if - q - r = 0 \<and> q = size_g g - 1 then 5
        else if q = 0 \<and> r = size_g g - 1 then 1
        else if r = 0 \<and> - q - r = size_g g - 1 then 3
        else if - q - r = 0 \<and> r = size_g g - 1 then 2
        else 0) \<and>
     (size_g g \<noteq> 1 \<longrightarrow>
        (q = 0 \<and> - q - r = size_g g - 1 \<longrightarrow> use_rotation u = 4) \<and>
        (- q - r = 0 \<and> q = size_g g - 1 \<longrightarrow> use_rotation u = 5) \<and>
        (q = 0 \<and> r = size_g g - 1 \<longrightarrow> use_rotation u = 1) \<and>
        (r = 0 \<and> - q - r = size_g g - 1 \<longrightarrow> use_rotation u = 3) \<and>
        (- q - r = 0 \<and> r = size_g g - 1 \<longrightarrow> use_rotation u = 2) \<and>
        (r = 0 \<and> q = size_g g - 1 \<longrightarrow> use_rotation u = 0)) \<and>
     (use_rotation u = 0 \<longrightarrow> r = 0 \<and> q = size_g g - 1) \<and>
     (size_g g = 1 \<longrightarrow> use_rotation u = 4 \<and> placements g rnd = [u])"
proof -
  from draw_error_None [OF assms(2)] obtain rnd'
    where d: "draw g rnd = Inr (drawn g rnd, rnd')" by blast
  from assms(3) have "placed_cell g q r"
    by (simp add: placed_cell_def)
  from draw_placement [OF d assms(1) this] obtain u
    where u: "filter (at_cell q r) (placements g rnd) = [u]" "placement_for g q r u"
    by (auto simp: placements_def)
  from placement_for_corner [OF u(2) assms(3)]
  have rot: "use_rotation u = corner_rotate (size_g g) q r (- q - r)"
    by (auto simp: use_rotation_make_use)
  have a: "use_rotation u =
       (if q = 0 \<and> - q - r = size_g g - 1 then 4
        else if - q - r = 0 \<and> q = size_g g - 1 then 5
        else if q = 0 \<and> r = size_g g - 1 then 1
        else if r = 0 \<and> - q - r = size_g g - 1 then 3
        else if - q - r = 0 \<and> r = size_g g - 1 then 2
        else 0)"
    unfolding rot corner_rotate_def by simp
  have b: "(q = 0 \<and> - q - r = size_g g - 1 \<longrightarrow> use_rotation u = 4) \<and>
        (- q - r = 0 \<and> q = size_g g - 1 \<longrightarrow> use_rotation u = 5) \<and>
        (q = 0 \<and> r = size_g g - 1 \<longrightarrow> use_rotation u = 1) \<and>
        (r = 0 \<and> - q - r = size_g g - 1 \<longrightarrow> use_rotation u = 3) \<and>
        (- q - r = 0 \<and> r = size_g g - 1 \<longrightarrow> use_rotation u = 2) \<and>
        (r = 0 \<and> q = size_g g - 1 \<longrightarrow> use_rotation u = 0)"
    if "size_g g \<noteq> 1"
    unfolding rot by (intro conjI corner_rotate_cases [OF that])
  have c: "r = 0 \<and> q = size_g g - 1" if "use_rotation u = 0"
    using that corner_default [OF assms(3)] unfolding rot by (rule corner_rotate_zero)
  have e: "use_rotation u = 4 \<and> placements g rnd = [u]" if n: "size_g g = 1"
  proof -
    from assms(3) n have z: "q = 0 \<and> r = 0"
      by (auto simp: corner_cell_def in_region_def)
    from draw_size_one [OF d assms(1) n] u(1) z have "placements g rnd = [u]"
      by (simp add: placements_def)
    moreover from z n have "use_rotation u = 4"
      unfolding a by simp
    ultimately show ?thesis by simp
  qed
  from u(1) a b c e show ?thesis by blast
qed

theorem corner_rotation_by_position_witness:
  "fresh (grid_full 1) \<and> draw_error (grid_full 1) zero_rng = None \<and>
   corner_cell (grid_full 1) 0 0 \<and>
   (\<exists>u. placements (grid_full 1) zero_rng = [u] \<and> use_rotation u = 4)"
proof -
  have f: "fresh (grid_full 1)"
    by (simp add: grid_full_def fresh_HexGrid)
  have s: "size_g (grid_full 1) = 1" and c: "cornertiles (grid_full 1) \<noteq> []"
    by (simp_all add: grid_full_def grid_defs)
  from s have "tiles (grid_full 1) \<noteq> [] \<or> size_g (grid_full 1) \<le> 1" by simp
  from draw_fresh(1) [OF f this] have d: "draw_error (grid_full 1) zero_rng = None" .
  have cc: "corner_cell (grid_full 1) 0 0"
    by (simp add: corner_cell_def in_region_def on_border_def zero_coord_def s c)
  from corner_rotation_by_position [OF f d cc] s
  have "\<exists>u. placements (grid_full 1) zero_rng = [u] \<and> use_rotation u = 4"
    by auto
  with f d cc show ?thesis by simp
qed

section \<open>Stacking order\<close>

lemma all2_filter:
  assumes "list_all2 R us (filter P cs)" "u \<in> set us"
  shows "\<exists>c \<in> set cs. P c \<and> R u c"
  using all2_related [OF assms] by auto

lemma draw_steps_all:
  "length (cells (size_g g)) \<le> k \<Longrightarrow> draw_steps k g rnd = draw g rnd"
  by (simp add: draw_steps_def draw_cells)

lemma corner_use_placement:
  "placement_for g q r u \<Longrightarrow> corner_use g u \<longleftrightarrow> corner_cell g q r"
  by (auto simp: corner_use_def placement_for_at_cell)

lemma placement_for_interior:
  assumes "placement_for g q r u" "interior_cell g q r"
  shows "\<exists>t \<in> set (tiles g). \<exists>k \<in> {0..5}. u = make_use (sym_id t) q r k"
  using assms cell_cases [of g q r] by (auto simp: placement_for_def)

lemma front_before_back:
  assumes "\<forall>u \<in> set xs. P u" "\<forall>u \<in> set ys. \<not> P u"
    and "i < length (xs @ ys)" "j < length (xs @ ys)" "P ((xs @ ys) ! i)" "\<not> P ((xs @ ys) ! j)"
  shows "i < j"
proof -
  have "i < length xs"
  proof (rule ccontr)
    assume "\<not> i < length xs"
    with assms(3) have "(xs @ ys) ! i \<in> set ys"
      by (simp add: nth_append)
    with assms(2,5) show False by blast
  qed
  moreover have "length xs \<le> j"
  proof (rule ccontr)
    assume "\<not> length xs \<le> j"
    then have "(xs @ ys) ! j \<in> set xs"
      by (simp add: nth_append)
    with assms(1,6) show False by blast
  qed
  ultimately show ?thesis by simp
qed

text \<open>
  Claim C5. Corner placements are inserted at the front of the placement group and all other
  placements are appended, so after every placement step of \<open>draw\<close> (after the first \<open>k\<close>
  cells, for every \<open>k\<close>, hence also in the final document) the group is the corner placements
  made so far, latest first, followed by the edge and interior placements in the order made:
  every corner placement precedes every edge and interior placement.
\<close>
theorem corners_beneath_at_every_step:
  assumes "fresh g" "draw_steps k g rnd = Inr (g', rnd')"
  shows "\<exists>cu ou. uses g' = rev cu @ ou \<and>
     list_all2 (\<lambda>u (q, r). placement_for g q r u) cu
       (filter (case_prod (corner_cell g)) (take k (cells (size_g g)))) \<and>
     list_all2 (\<lambda>u (q, r). placement_for g q r u) ou
       (filter (\<lambda>(q, r). edge_cell g q r \<or> interior_cell g q r) (take k (cells (size_g g)))) \<and>
     (\<forall>i j. i < length (uses g') \<and> j < length (uses g') \<and>
        corner_use g (uses g' ! i) \<and> \<not> corner_use g (uses g' ! j) \<longrightarrow> i < j) \<and>
     (length (cells (size_g g)) \<le> k \<longrightarrow> draw g rnd = Inr (g', rnd'))"
proof -
  let ?cs = "take k (cells (size_g g))"
  have rng: "\<forall>(q, r) \<in> set ?cs. \<bar>q\<bar> \<le> size_g g - 1 \<and> \<bar>r\<bar> \<le> size_g g - 1"
    using in_cells [of "size_g g"] by (auto dest: in_set_takeD)
  from for_each_cells [OF assms(2) [unfolded draw_steps_def] has_group_new_group cfg_new_group rng]
    uses_fresh [OF assms(1)]
  obtain cu ou where u: "uses g' = rev cu @ ou"
    and cu: "list_all2 (\<lambda>u (q, r). placement_for g q r u) cu
          (filter (case_prod (corner_cell g)) ?cs)"
    and ou: "list_all2 (\<lambda>u (q, r). placement_for g q r u) ou
          (filter (\<lambda>(q, r). edge_cell g q r \<or> interior_cell g q r) ?cs)"
    by (auto simp: uses_new_group)
  have c: "\<forall>u \<in> set (rev cu). corner_use g u"
  proof
    fix u assume "u \<in> set (rev cu)"
    then have "u \<in> set cu" by simp
    from all2_filter [OF cu this] obtain q r
      where "corner_cell g q r" "placement_for g q r u"
      by auto
    then show "corner_use g u"
      using corner_use_placement [of g q r u] by simp
  qed
  have o: "\<forall>u \<in> set ou. \<not> corner_use g u"
  proof
    fix u assume "u \<in> set ou"
    from all2_filter [OF ou this] obtain q r
      where "edge_cell g q r \<or> interior_cell g q r" "placement_for g q r u"
      by auto
    moreover from this(1) have "\<not> corner_cell g q r"
      by (rule_tac cell_cases [of g q r]) auto
    ultimately show "\<not> corner_use g u"
      using corner_use_placement [of g q r u] by simp
  qed
  have "i < j" if "i < length (uses g')" "j < length (uses g')"
    "corner_use g (uses g' ! i)" "\<not> corner_use g (uses g' ! j)" for i j
    using front_before_back [OF c o] that unfolding u by blast
  moreover have "draw g rnd = Inr (g', rnd')" if "length (cells (size_g g)) \<le> k"
    using draw_steps_all [OF that] assms(2) by simp
  ultimately show ?thesis
    using u cu ou by blast
qed

theorem corners_beneath_at_every_step_witness:
  "fresh (grid_full 2) \<and>
   draw_steps 9 (grid_full 2) zero_rng = Inr (drawn (grid_full 2) zero_rng, zero_rng) \<and>
   (\<exists>cu ou. uses (drawn (grid_full 2) zero_rng) = rev cu @ ou \<and> length cu = 6 \<and> length ou = 1 \<and>
      (\<forall>u \<in> set cu. href u = ''#corner'') \<and> (\<forall>u \<in> set ou. href u \<noteq> ''#corner''))"
proof -
  have f: "fresh (grid_full 2)"
    by (simp add: grid_full_def fresh_HexGrid)
  have s: "size_g (grid_full 2) = 2" and c: "cornertiles (grid_full 2) = [tile_corner]"
    and e: "edgetiles (grid_full 2) = [tile_edge]" and t: "tiles (grid_full 2) = [tile_A]"
    by (simp_all add: grid_full_def grid_defs)
  have cs: "cells 2 = [(- 1, - 1), (- 1, 0), (- 1, 1), (0, - 1), (0, 0), (0, 1), (1, - 1), (1, 0), (1, 1)]"
    by (simp add: cells_def range_size_def upto_rec1)
  have d: "draw_steps 9 (grid_full 2) zero_rng = Inr (drawn (grid_full 2) zero_rng, zero_rng)"
    by (simp add: draw_steps_def s cs new_group_def drawn_def grid_full_def eval_defs)
  have fc: "filter (case_prod (corner_cell (grid_full 2))) (take 9 (cells 2)) =
      [(- 1, 0), (- 1, 1), (0, - 1), (0, 1), (1, - 1), (1, 0)]"
    by (simp add: cs corner_cell_def in_region_def on_border_def zero_coord_def s c)
  have fo: "filter (\<lambda>(q, r). edge_cell (grid_full 2) q r \<or> interior_cell (grid_full 2) q r)
      (take 9 (cells 2)) = [(0, 0)]"
    by (simp add: cs edge_cell_def interior_cell_def in_region_def on_border_def zero_coord_def s c)
  from corners_beneath_at_every_step [OF f d] obtain cu ou
    where u: "uses (drawn (grid_full 2) zero_rng) = rev cu @ ou"
      and cu: "list_all2 (\<lambda>u (q, r). placement_for (grid_full 2) q r u) cu
         [(- 1, 0), (- 1, 1), (0, - 1), (0, 1), (1, - 1), (1, 0)]"
      and ou: "list_all2 (\<lambda>u (q, r). placement_for (grid_full 2) q r u) ou [(0, 0)]"
    unfolding s fc fo by blast
  have 1: "length cu = 6" using list_all2_lengthD [OF cu] by simp
  have 2: "length ou = 1" using list_all2_lengthD [OF ou] by simp
  have 3: "\<forall>u \<in> set cu. href u = ''#corner''"
  proof
    fix u assume "u \<in> set cu"
    from all2_related [OF cu this] obtain q r
      where m: "(q, r) \<in> set [(- 1, 0), (- 1, 1), (0, - 1), (0, 1), (1, - 1), (1, 0 :: int)]"
        and p: "placement_for (grid_full 2) q r u"
      by auto
    from m have "corner_cell (grid_full 2) q r"
      by (auto simp: corner_cell_def in_region_def on_border_def zero_coord_def s c)
    from placement_for_corner [OF p this] show "href u = ''#corner''"
      by (auto simp: c make_use_def tile_corner_def Let_def)
  qed
  have 4: "\<forall>u \<in> set ou. href u \<noteq> ''#corner''"
  proof
    fix u assume "u \<in> set ou"
    from all2_related [OF ou this] have p: "placement_for (grid_full 2) 0 0 u"
      by simp
    have "interior_cell (grid_full 2) 0 0"
      by (simp add: interior_cell_def in_region_def on_border_def s)
    from placement_for_interior [OF p this] show "href u \<noteq> ''#corner''"
      by (auto simp: t make_use_def tile_A_def Let_def)
  qed
  have "\<exists>cu ou. uses (drawn (grid_full 2) zero_rng) = rev cu @ ou \<and> length cu = 6 \<and>
      length ou = 1 \<and> (\<forall>u \<in> set cu. href u = ''#corner'') \<and>
      (\<forall>u \<in> set ou. href u \<noteq> ''#corner'')"
    by (intro exI conjI) (rule u 1 2 3 4)+
  with f d show ?thesis by simp
qed

section \<open>An empty interior pool\<close>

lemma for_each_fails:
  assumes "has_group g" "cfg g = cfg G"
    and "\<forall>(q, r) \<in> set cs. \<bar>q\<bar> \<le> size_g G - 1 \<and> \<bar>r\<bar> \<le> size_g G - 1"
    and "tiles G = []" "\<exists>(q, r) \<in> set cs. interior_cell G q r"
  shows "\<exists>g' rnd'. for_each cs (case_prod place_cell) (g, rnd) = Inl (IndexError, (g', rnd')) \<and>
     has_group g' \<and>
     length (uses g') = length (uses g) +
       length (filter (case_prod (placed_cell G))
         (takeWhile (\<lambda>(q, r). \<not> interior_cell G q r) cs))"
  using assms
proof (induction cs arbitrary: g rnd)
  case Nil
  then show ?case by simp
next
  case (Cons c cs)
  obtain q r where c: "c = (q, r)" by (cases c)
  note eqs = cfg_cells [OF Cons.prems(2)] cfg_fields [OF Cons.prems(2)]
  from Cons.prems(3) c have rng: "\<bar>q\<bar> \<le> size_g g - 1" "\<bar>r\<bar> \<le> size_g g - 1"
    and rest: "\<forall>(q, r) \<in> set cs. \<bar>q\<bar> \<le> size_g G - 1 \<and> \<bar>r\<bar> \<le> size_g G - 1"
    by (auto simp: eqs)
  show ?case
  proof (cases rule: cell_cases [of G q r])
    case corner
    let ?g1 = "prepend_use (make_use (sym_id (pick (cornertiles g) rnd)) q r
       (corner_rotate (size_g g) q r (- q - r))) g"
    have step: "place_cell q r (g, rnd) = Inr (?g1, rng_next rnd)"
      using corner(1) Cons.prems(1) by (simp add: place_cell_corner eqs)
    from corner(3) Cons.prems(5) c have more: "\<exists>(q, r) \<in> set cs. interior_cell G q r"
      by auto
    have g1: "has_group ?g1" "cfg ?g1 = cfg G" "length (uses ?g1) = Suc (length (uses g))"
      using Cons.prems(1,2) by (simp_all add: uses_prepend_use)
    from Cons.IH [OF g1(1,2) rest Cons.prems(4) more, of "rng_next rnd"] step c corner g1(3)
    show ?thesis by (auto simp: placed_cell_def)
  next
    case edge
    let ?g1 = "append_use (make_use (sym_id (pick (edgetiles g) rnd)) q r
       (edge_rotate (size_g g) q r (- q - r))) g"
    have step: "place_cell q r (g, rnd) = Inr (?g1, rng_next rnd)"
      using edge(1) Cons.prems(1) by (simp add: place_cell_edge eqs)
    from edge(3) Cons.prems(5) c have more: "\<exists>(q, r) \<in> set cs. interior_cell G q r"
      by auto
    have g1: "has_group ?g1" "cfg ?g1 = cfg G" "length (uses ?g1) = Suc (length (uses g))"
      using Cons.prems(1,2) by (simp_all add: uses_append_use)
    from Cons.IH [OF g1(1,2) rest Cons.prems(4) more, of "rng_next rnd"] step c edge g1(3)
    show ?thesis by (auto simp: placed_cell_def)
  next
    case interior
    have "place_cell q r (g, rnd) = Inl (IndexError, (g, rnd))"
      using interior(1) Cons.prems(4) by (simp add: place_cell_interior_empty eqs)
    with c interior(1) Cons.prems(1) show ?thesis by simp
  next
    case none
    have step: "place_cell q r (g, rnd) = Inr (g, rnd)"
      using none(1) rng by (simp add: place_cell_skip eqs)
    from none(4) Cons.prems(5) c have more: "\<exists>(q, r) \<in> set cs. interior_cell G q r"
      by auto
    from Cons.IH [OF Cons.prems(1,2) rest Cons.prems(4) more, of rnd] step c none
    show ?thesis by auto
  qed
qed

lemma first_row_not_interior:
  "\<forall>c \<in> set (map (Pair (- n + 1)) rs). (case c of (q, r) \<Rightarrow> \<not> interior_cell g q r)"
  if "size_g g = n"
  using that by (auto simp: interior_cell_def in_region_def on_border_def)

lemma cells_first_row:
  assumes "1 \<le> n"
  shows "\<exists>rest. cells n = map (Pair (- n + 1)) (range_size n) @ rest"
proof -
  from assms have "range_size n = (- n + 1) # [- n + 1 + 1 .. n - 1]"
    unfolding range_size_def by (subst upto_rec1) simp_all
  then show ?thesis
    by (simp add: cells_def)
qed

lemma first_cell_before_interior:
  assumes "1 \<le> size_g g"
  shows "(- size_g g + 1, 0) \<in>
     set (takeWhile (\<lambda>(q, r). \<not> interior_cell g q r) (cells (size_g g)))"
proof -
  from cells_first_row [OF assms] obtain rest
    where r: "cells (size_g g) = map (Pair (- size_g g + 1)) (range_size (size_g g)) @ rest"
    by blast
  let ?row = "map (Pair (- size_g g + 1)) (range_size (size_g g))"
  have n: "case c of (q, r) \<Rightarrow> \<not> interior_cell g q r" if "c \<in> set ?row" for c
    using first_row_not_interior [OF refl, of g "range_size (size_g g)"] that by blast
  have t: "takeWhile (\<lambda>(q, r). \<not> interior_cell g q r) (?row @ rest) =
      ?row @ takeWhile (\<lambda>(q, r). \<not> interior_cell g q r) rest"
    by (rule takeWhile_append2) (rule n)
  have "0 \<in> set (range_size (size_g g))"
    using assms by (simp add: range_size_def)
  then have "(- size_g g + 1, 0) \<in> set ?row"
    by simp
  then show ?thesis
    unfolding r t by simp
qed

lemma first_cell_placed:
  assumes "1 \<le> size_g g" "cornertiles g \<noteq> [] \<or> edgetiles g \<noteq> []"
  shows "placed_cell g (- size_g g + 1) 0"
  using assms
  by (auto simp: placed_cell_def corner_cell_def edge_cell_def in_region_def on_border_def
        zero_coord_def)

lemma centre_interior: "2 \<le> size_g g \<Longrightarrow> interior_cell g 0 0"
  by (simp add: interior_cell_def in_region_def on_border_def)

lemma for_each_no_interior:
  assumes "has_group g" "cfg g = cfg G"
    and "\<forall>(q, r) \<in> set cs. \<bar>q\<bar> \<le> size_g G - 1 \<and> \<bar>r\<bar> \<le> size_g G - 1"
    and "\<forall>(q, r) \<in> set cs. \<not> interior_cell G q r"
  shows "\<exists>st. for_each cs (case_prod place_cell) (g, rnd) = Inr st"
  using assms
proof (induction cs arbitrary: g rnd)
  case Nil
  then show ?case by simp
next
  case (Cons c cs)
  obtain q r where c: "c = (q, r)" by (cases c)
  note eqs = cfg_cells [OF Cons.prems(2)] cfg_fields [OF Cons.prems(2)]
  from Cons.prems(3) c have rng: "\<bar>q\<bar> \<le> size_g g - 1" "\<bar>r\<bar> \<le> size_g g - 1"
    and rest: "\<forall>(q, r) \<in> set cs. \<bar>q\<bar> \<le> size_g G - 1 \<and> \<bar>r\<bar> \<le> size_g G - 1"
    by (auto simp: eqs)
  from Cons.prems(4) c have ni: "\<not> interior_cell G q r"
    and rest': "\<forall>(q, r) \<in> set cs. \<not> interior_cell G q r"
    by auto
  have "\<exists>g1 rnd1. place_cell q r (g, rnd) = Inr (g1, rnd1) \<and> has_group g1 \<and> cfg g1 = cfg G"
  proof (cases rule: cell_cases [of G q r])
    case corner
    then show ?thesis
      using Cons.prems(1,2) by (simp add: place_cell_corner eqs)
  next
    case edge
    then show ?thesis
      using Cons.prems(1,2) by (simp add: place_cell_edge eqs)
  next
    case interior
    with ni show ?thesis by simp
  next
    case none
    then show ?thesis
      using Cons.prems(1,2) rng by (simp add: place_cell_skip eqs)
  qed
  then obtain g1 rnd1 where step: "place_cell q r (g, rnd) = Inr (g1, rnd1)"
    and g1: "has_group g1" "cfg g1 = cfg G" by blast
  from Cons.IH [OF g1 rest rest', of rnd1] step c show ?case by simp
qed

lemma cells_split:
  assumes "2 \<le> size_g g"
  shows "\<exists>q r rest. interior_cell g q r \<and>
     cells (size_g g) =
       takeWhile (\<lambda>(q, r). \<not> interior_cell g q r) (cells (size_g g)) @ (q, r) # rest"
proof -
  let ?P = "\<lambda>(q, r). \<not> interior_cell g q r"
  let ?cs = "cells (size_g g)"
  have "(0, 0) \<in> set ?cs"
    using assms by (simp add: set_cells)
  with centre_interior [OF assms] have "\<exists>c \<in> set ?cs. \<not> ?P c"
    by auto
  then have "dropWhile ?P ?cs \<noteq> []"
    by (simp add: dropWhile_eq_Nil_conv)
  then obtain c rest where d: "dropWhile ?P ?cs = c # rest"
    by (cases "dropWhile ?P ?cs") auto
  then have "\<not> ?P c"
    using hd_dropWhile [of ?P ?cs] by auto
  moreover have "?cs = takeWhile ?P ?cs @ c # rest"
    using takeWhile_dropWhile_id [of ?P ?cs] d by simp
  ultimately show ?thesis
    by (cases c) auto
qed

lemma draw_fails_after_prefix:
  assumes "2 \<le> size_g g" "tiles g = []"
  shows "\<exists>g' rnd'. draw g rnd = Inl (IndexError, (g', rnd')) \<and>
     draw_steps (length (takeWhile (\<lambda>(q, r). \<not> interior_cell g q r) (cells (size_g g)))) g rnd =
       Inr (g', rnd')"
proof -
  let ?P = "\<lambda>(q, r). \<not> interior_cell g q r"
  let ?cs = "cells (size_g g)"
  let ?pre = "takeWhile ?P ?cs"
  from cells_split [OF assms(1)] obtain q r rest
    where i: "interior_cell g q r" and sp: "?cs = ?pre @ (q, r) # rest"
    by blast
  have rng: "\<forall>(q, r) \<in> set ?pre. \<bar>q\<bar> \<le> size_g g - 1 \<and> \<bar>r\<bar> \<le> size_g g - 1"
    using in_cells [of "size_g g"] by (auto dest: set_takeWhileD)
  have ni: "\<forall>(q, r) \<in> set ?pre. \<not> interior_cell g q r"
    by (auto dest: set_takeWhileD)
  from for_each_no_interior [OF has_group_new_group cfg_new_group rng ni, of rnd]
  obtain g' rnd' where p: "for_each ?pre (case_prod place_cell) (new_group g, rnd) = Inr (g', rnd')"
    by force
  from for_each_cells [OF p has_group_new_group cfg_new_group rng]
  have c: "cfg g' = cfg g" by simp
  have "place_cell q r (g', rnd') = Inl (IndexError, (g', rnd'))"
    using i assms(2) cfg_cells(3) [OF c] cfg_fields(2) [OF c]
    by (simp add: place_cell_interior_empty)
  then have "for_each (?pre @ (q, r) # rest) (case_prod place_cell) (new_group g, rnd) =
      Inl (IndexError, (g', rnd'))"
    by (simp add: for_each_append p)
  then have "draw g rnd = Inl (IndexError, (g', rnd'))"
    unfolding draw_cells using sp by simp
  moreover have "take (length ?pre) ?cs = ?pre"
    by (subst (2) sp) simp
  then have "draw_steps (length ?pre) g rnd = Inr (g', rnd')"
    by (simp add: draw_steps_def p)
  ultimately show ?thesis by blast
qed

lemma placed_count:
  assumes "us = rev cu @ ou" "distinct cs"
    and "list_all2 (\<lambda>u (q, r). placement_for g q r u) cu (filter (case_prod (corner_cell g)) cs)"
    and "list_all2 (\<lambda>u (q, r). placement_for g q r u) ou
          (filter (\<lambda>(q, r). edge_cell g q r \<or> interior_cell g q r) cs)"
  shows "length (filter (at_cell q r) us) = (if placed_cell g q r \<and> (q, r) \<in> set cs then 1 else 0)"
proof -
  have d: "length (filter (\<lambda>c. c = (q, r)) cs) = (if (q, r) \<in> set cs then 1 else 0)"
    by (rule count_distinct [OF assms(2)])
  have "length (filter (at_cell q r) us) =
      length (filter (at_cell q r) cu) + length (filter (at_cell q r) ou)"
    by (simp add: assms(1) rev_filter [symmetric])
  also have "\<dots> = (if corner_cell g q r then length (filter (\<lambda>c. c = (q, r)) cs) else 0) +
      (if edge_cell g q r \<or> interior_cell g q r then length (filter (\<lambda>c. c = (q, r)) cs) else 0)"
    unfolding count_at_cell [OF assms(3)] count_at_cell [OF assms(4)] filter_eq_filter
    by (simp del: filter_filter)
  also have "\<dots> = (if placed_cell g q r \<and> (q, r) \<in> set cs then 1 else 0)"
    using cell_cases [of g q r]
    by (auto simp: d placed_cell_def)
  finally show ?thesis .
qed

text \<open>
  Claim C8 (amended). If the interior pool is empty while an interior cell exists (size at
  least 2), \<open>draw\<close> fails with the \<open>IndexError\<close> that \<open>random.choice\<close> raises when the first
  interior cell is reached. Nothing is checked before placement begins: the grid's document
  is then exactly what the loops leave after the cells visited before that one, the group with
  one placement for every placed boundary cell among them (corner placements in front, in
  reverse order, edge placements behind, in order) and none for any other cell; that is at
  least one placement when the corner or the edge pool is non-empty. The error is fatal in
  that \<open>draw\<close> returns no document.
\<close>
theorem empty_interior_pool_fails_midway:
  assumes "2 \<le> size_g g" "tiles g = []"
  shows "draw_error g rnd = Some IndexError \<and> has_group (drawn g rnd) \<and>
     length (placements g rnd) = length (uses g) +
       length (filter (case_prod (placed_cell g))
         (takeWhile (\<lambda>(q, r). \<not> interior_cell g q r) (cells (size_g g)))) \<and>
     (cornertiles g \<noteq> [] \<or> edgetiles g \<noteq> [] \<longrightarrow> length (uses g) < length (placements g rnd)) \<and>
     (\<exists>rnd'. draw_steps
         (length (takeWhile (\<lambda>(q, r). \<not> interior_cell g q r) (cells (size_g g)))) g rnd =
           Inr (drawn g rnd, rnd')) \<and>
     (\<exists>cu ou. placements g rnd = rev cu @ uses g @ ou \<and>
        list_all2 (\<lambda>u (q, r). placement_for g q r u) cu
          (filter (case_prod (corner_cell g))
            (takeWhile (\<lambda>(q, r). \<not> interior_cell g q r) (cells (size_g g)))) \<and>
        list_all2 (\<lambda>u (q, r). placement_for g q r u) ou
          (filter (\<lambda>(q, r). edge_cell g q r \<or> interior_cell g q r)
            (takeWhile (\<lambda>(q, r). \<not> interior_cell g q r) (cells (size_g g))))) \<and>
     (fresh g \<longrightarrow>
        (\<forall>q r. length (filter (at_cell q r) (placements g rnd)) =
           (if placed_cell g q r \<and>
               (q, r) \<in> set (takeWhile (\<lambda>(q, r). \<not> interior_cell g q r) (cells (size_g g)))
            then 1 else 0)))"
proof -
  let ?pre = "takeWhile (\<lambda>(q, r). \<not> interior_cell g q r) (cells (size_g g))"
  have "(0, 0) \<in> set (cells (size_g g))"
    using assms(1) by (simp add: set_cells)
  with centre_interior [OF assms(1)]
  have i: "\<exists>(q, r) \<in> set (cells (size_g g)). interior_cell g q r"
    by blast
  from draw_fails_after_prefix [OF assms, of rnd] obtain g' rnd'
    where d: "draw g rnd = Inl (IndexError, (g', rnd'))"
      and p: "draw_steps (length ?pre) g rnd = Inr (g', rnd')"
    by blast
  from d have o: "draw_error g rnd = Some IndexError" "drawn g rnd = g'"
    by (simp_all add: draw_error_def drawn_def)
  from for_each_fails [OF has_group_new_group cfg_new_group in_cells assms(2) i, of rnd] d
  have h: "has_group g'"
    and l: "length (uses g') = length (uses g) + length (filter (case_prod (placed_cell g)) ?pre)"
    by (auto simp: draw_cells uses_new_group)
  have pos: "0 < length (filter (case_prod (placed_cell g)) ?pre)"
    if "cornertiles g \<noteq> [] \<or> edgetiles g \<noteq> []"
  proof -
    from assms(1) have n: "1 \<le> size_g g" by simp
    from first_cell_before_interior [OF n] first_cell_placed [OF n that]
    have "filter (case_prod (placed_cell g)) ?pre \<noteq> []"
      unfolding filter_empty_conv by blast
    then show ?thesis by simp
  qed
  have t: "take (length ?pre) (cells (size_g g)) = ?pre"
    using takeWhile_eq_take [of "\<lambda>(q, r). \<not> interior_cell g q r" "cells (size_g g)"] by simp
  have rng: "\<forall>(q, r) \<in> set ?pre. \<bar>q\<bar> \<le> size_g g - 1 \<and> \<bar>r\<bar> \<le> size_g g - 1"
    using in_cells [of "size_g g"] by (auto dest: set_takeWhileD)
  from for_each_cells [OF p [unfolded draw_steps_def t] has_group_new_group cfg_new_group rng]
  obtain cu ou where u: "uses g' = rev cu @ uses g @ ou"
    and cu: "list_all2 (\<lambda>u (q, r). placement_for g q r u) cu
          (filter (case_prod (corner_cell g)) ?pre)"
    and ou: "list_all2 (\<lambda>u (q, r). placement_for g q r u) ou
          (filter (\<lambda>(q, r). edge_cell g q r \<or> interior_cell g q r) ?pre)"
    by (auto simp: uses_new_group)
  have cnt: "length (filter (at_cell q r) (uses g')) =
      (if placed_cell g q r \<and> (q, r) \<in> set ?pre then 1 else 0)" if "fresh g" for q r
  proof -
    from u uses_fresh [OF that] have "uses g' = rev cu @ ou" by simp
    from placed_count [OF this _ cu ou] show ?thesis
      using distinct_cells [of "size_g g"] by (simp add: distinct_takeWhile)
  qed
  have 1: "draw_error g rnd = Some IndexError \<and> has_group (drawn g rnd)"
    using o h by simp
  have 2: "length (placements g rnd) = length (uses g) +
       length (filter (case_prod (placed_cell g)) ?pre)"
    using o l by (simp add: placements_def)
  have 3: "cornertiles g \<noteq> [] \<or> edgetiles g \<noteq> [] \<longrightarrow> length (uses g) < length (placements g rnd)"
    using pos 2 by auto
  have 4: "\<exists>rnd'. draw_steps (length ?pre) g rnd = Inr (drawn g rnd, rnd')"
    using p o by auto
  have 5: "\<exists>cu ou. placements g rnd = rev cu @ uses g @ ou \<and>
        list_all2 (\<lambda>u (q, r). placement_for g q r u) cu
          (filter (case_prod (corner_cell g)) ?pre) \<and>
        list_all2 (\<lambda>u (q, r). placement_for g q r u) ou
          (filter (\<lambda>(q, r). edge_cell g q r \<or> interior_cell g q r) ?pre)"
    using u cu ou o by (auto simp: placements_def)
  have 6: "fresh g \<longrightarrow>
        (\<forall>q r. length (filter (at_cell q r) (placements g rnd)) =
           (if placed_cell g q r \<and> (q, r) \<in> set ?pre then 1 else 0))"
    using cnt o by (simp add: placements_def)
  from 1 2 3 4 5 6 show ?thesis by blast
qed

theorem empty_interior_pool_fails_midway_witness:
  "2 \<le> size_g grid_noint \<and> tiles grid_noint = [] \<and> cornertiles grid_noint \<noteq> [] \<and>
   fresh grid_noint \<and>
   draw_error grid_noint zero_rng = Some IndexError \<and>
   length (uses grid_noint) < length (placements grid_noint zero_rng) \<and>
   length (filter (at_cell (- 1) 0) (placements grid_noint zero_rng)) = 1 \<and>
   length (filter (at_cell 1 0) (placements grid_noint zero_rng)) = 0"
proof -
  have s: "2 \<le> size_g grid_noint" and t: "tiles grid_noint = []"
    and c: "cornertiles grid_noint \<noteq> []" and n: "size_g grid_noint = 2"
    by (simp_all add: grid_noint_def grid_defs)
  have f: "fresh grid_noint"
    by (simp add: grid_noint_def fresh_HexGrid)
  have cs: "cells 2 = [(- 1, - 1), (- 1, 0), (- 1, 1), (0, - 1), (0, 0), (0, 1), (1, - 1), (1, 0), (1, 1)]"
    by (simp add: cells_def range_size_def upto_rec1)
  have pre: "takeWhile (\<lambda>(q, r). \<not> interior_cell grid_noint q r) (cells (size_g grid_noint)) =
      [(- 1, - 1), (- 1, 0), (- 1, 1), (0, - 1)]"
    by (simp add: n cs interior_cell_def in_region_def on_border_def)
  have p: "placed_cell grid_noint (- 1) 0"
    using c by (simp add: placed_cell_def corner_cell_def in_region_def on_border_def
        zero_coord_def n)
  from empty_interior_pool_fails_midway [OF s t, of zero_rng] f c p
  have "draw_error grid_noint zero_rng = Some IndexError \<and>
      length (uses grid_noint) < length (placements grid_noint zero_rng) \<and>
      length (filter (at_cell (- 1) 0) (placements grid_noint zero_rng)) = 1 \<and>
      length (filter (at_cell 1 0) (placements grid_noint zero_rng)) = 0"
    unfolding pre by simp
  with s t c f show ?thesis by simp
qed

theorem empty_interior_pool_fails_midway_counterexample:
  "2 \<le> size_g grid_noint \<and> tiles grid_noint = [] \<and>
   draw_error grid_noint zero_rng = Some IndexError \<and>
   placements grid_noint zero_rng =
     [make_use ''corner'' 0 (- 1) 4, make_use ''corner'' (- 1) 1 2, make_use ''corner'' (- 1) 0 3]"
  by (simp add: grid_noint_def eval_defs)

section \<open>Registering a tile twice\<close>

lemma add_symbol_fields:
  "size_g (add_symbol t g) = size_g g" "borders (add_symbol t g) = borders g"
  "tile_refs (add_symbol t g) = tile_refs g" "edgetile_refs (add_symbol t g) = edgetile_refs g"
  "cornertile_refs (add_symbol t g) = cornertile_refs g"
  "children (svg (add_symbol t g)) = children (svg g) @ [SymbolNode (sym_ref t)]"
  "elems (add_symbol t g) = (elems g)(sym_ref t := bordered g (current g t))"
  by (simp_all add: add_symbol_def)

lemma sym_id_bordered: "sym_id (bordered g t) = sym_id t"
  by (simp add: bordered_def)

lemma map_elems_new:
  assumes "r \<notin> set rs"
  shows "map (f(r := v)) rs = map f rs"
  using assms by (induction rs) auto

text \<open>
  Claim C9 (amended). Registering a tile whose identifier equals that of an already registered
  tile, in any of the three pools, is accepted without any error: a reference to the tile is
  appended to its pool and to the document, every earlier entry stays in place, and no object
  but the registered one is changed. For a tile that is an object new to the grid the pool
  becomes the old pool followed by the tile (with its border path when borders are on).
\<close>
theorem duplicate_id_accepted:
  assumes "sym_id t \<in> sym_id ` set (tiles g @ edgetiles g @ cornertiles g)"
  shows "tile_refs (add_tile t g) = tile_refs g @ [sym_ref t] \<and>
     edgetile_refs (add_edge_tile t g) = edgetile_refs g @ [sym_ref t] \<and>
     cornertile_refs (add_corner_tile t g) = cornertile_refs g @ [sym_ref t] \<and>
     children (svg (add_tile t g)) = children (svg g) @ [SymbolNode (sym_ref t)] \<and>
     children (svg (add_edge_tile t g)) = children (svg g) @ [SymbolNode (sym_ref t)] \<and>
     children (svg (add_corner_tile t g)) = children (svg g) @ [SymbolNode (sym_ref t)] \<and>
     elems (add_tile t g) = (elems g)(sym_ref t := bordered g (current g t)) \<and>
     elems (add_edge_tile t g) = (elems g)(sym_ref t := bordered g (current g t)) \<and>
     elems (add_corner_tile t g) = (elems g)(sym_ref t := bordered g (current g t)) \<and>
     sym_id (bordered g (current g t)) = sym_id (current g t) \<and>
     (\<not> known g (sym_ref t) \<and> sym_ref t \<notin> set (tile_refs g) \<longrightarrow>
        tiles (add_tile t g) = tiles g @ [bordered g t]) \<and>
     (\<not> known g (sym_ref t) \<and> sym_ref t \<notin> set (edgetile_refs g) \<longrightarrow>
        edgetiles (add_edge_tile t g) = edgetiles g @ [bordered g t]) \<and>
     (\<not> known g (sym_ref t) \<and> sym_ref t \<notin> set (cornertile_refs g) \<longrightarrow>
        cornertiles (add_corner_tile t g) = cornertiles g @ [bordered g t])"
proof -
  have k: "known (g\<lparr>tile_refs := a\<rparr>) = known g" "known (g\<lparr>edgetile_refs := a\<rparr>) = known g"
    "known (g\<lparr>cornertile_refs := a\<rparr>) = known g" for a
    by (simp_all add: known_def fun_eq_iff)
  have c: "current (g\<lparr>tile_refs := a\<rparr>) t = current g t"
    "current (g\<lparr>edgetile_refs := a\<rparr>) t = current g t"
    "current (g\<lparr>cornertile_refs := a\<rparr>) t = current g t" for a
    by (simp_all add: current_def k)
  have b: "bordered (g\<lparr>tile_refs := a\<rparr>) = bordered g"
    "bordered (g\<lparr>edgetile_refs := a\<rparr>) = bordered g"
    "bordered (g\<lparr>cornertile_refs := a\<rparr>) = bordered g" for a
    by (simp_all add: bordered_def fun_eq_iff)
  have e: "elems (add_tile t g) = (elems g)(sym_ref t := bordered g (current g t))"
    "elems (add_edge_tile t g) = (elems g)(sym_ref t := bordered g (current g t))"
    "elems (add_corner_tile t g) = (elems g)(sym_ref t := bordered g (current g t))"
    by (simp_all add: add_tile_def add_edge_tile_def add_corner_tile_def add_symbol_fields b c)
  have r: "tile_refs (add_tile t g) = tile_refs g @ [sym_ref t]"
    "edgetile_refs (add_edge_tile t g) = edgetile_refs g @ [sym_ref t]"
    "cornertile_refs (add_corner_tile t g) = cornertile_refs g @ [sym_ref t]"
    by (simp_all add: add_tile_def add_edge_tile_def add_corner_tile_def add_symbol_fields)
  have d: "children (svg (add_tile t g)) = children (svg g) @ [SymbolNode (sym_ref t)]"
    "children (svg (add_edge_tile t g)) = children (svg g) @ [SymbolNode (sym_ref t)]"
    "children (svg (add_corner_tile t g)) = children (svg g) @ [SymbolNode (sym_ref t)]"
    by (simp_all add: add_tile_def add_edge_tile_def add_corner_tile_def add_symbol_fields)
  have n1: "tiles (add_tile t g) = tiles g @ [bordered g t]"
    if "\<not> known g (sym_ref t) \<and> sym_ref t \<notin> set (tile_refs g)"
    using that by (simp add: tiles_def e r map_elems_new current_def)
  have n2: "edgetiles (add_edge_tile t g) = edgetiles g @ [bordered g t]"
    if "\<not> known g (sym_ref t) \<and> sym_ref t \<notin> set (edgetile_refs g)"
    using that by (simp add: edgetiles_def e r map_elems_new current_def)
  have n3: "cornertiles (add_corner_tile t g) = cornertiles g @ [bordered g t]"
    if "\<not> known g (sym_ref t) \<and> sym_ref t \<notin> set (cornertile_refs g)"
    using that by (simp add: cornertiles_def e r map_elems_new current_def)
  from e r d n1 n2 n3 sym_id_bordered [of g "current g t"] show ?thesis
    by blast
qed

theorem duplicate_id_accepted_witness:
  "sym_id tile_A2 \<in> sym_id ` set (tiles grid_A1 @ edgetiles grid_A1 @ cornertiles grid_A1) \<and>
   tile_refs (add_tile tile_A2 grid_A1) = tile_refs grid_A1 @ [sym_ref tile_A2] \<and>
   tiles (add_tile tile_A2 grid_A1) = tiles grid_A1 @ [bordered grid_A1 tile_A2]"
proof -
  have a: "sym_id tile_A2 \<in> sym_id ` set (tiles grid_A1 @ edgetiles grid_A1 @ cornertiles grid_A1)"
    by (simp add: grid_A1_def grid_defs)
  have n: "\<not> known grid_A1 (sym_ref tile_A2) \<and> sym_ref tile_A2 \<notin> set (tile_refs grid_A1)"
    by (simp add: grid_A1_def grid_defs)
  from duplicate_id_accepted [OF a] a n show ?thesis
    by blast
qed

text \<open>
  Two tiles with the identifier \<open>A\<close> are both accepted, into any pool. So is the same object
  twice; with borders on it then carries two border paths, seen through both entries.
\<close>

theorem duplicate_id_accepted_counterexample:
  "sym_id tile_A2 = sym_id tile_A \<and> tiles grid_A1 = [tile_A] \<and>
   tiles (add_tile tile_A2 grid_A1) = [tile_A, tile_A2] \<and>
   edgetiles (add_edge_tile tile_A2 grid_A1) = [tile_A2] \<and>
   cornertiles (add_corner_tile tile_A2 grid_A1) = [tile_A2] \<and>
   children (svg (add_tile tile_A2 grid_A1)) = [SymbolNode 0, SymbolNode 3]"
  by (simp add: grid_A1_def grid_defs)

lemma same_object_twice:
  "tile_refs (add_tile tile_A (add_tile tile_A (HexGrid 1 True))) = [0, 0]"
  "map sym_body (tiles (add_tile tile_A (add_tile tile_A (HexGrid 1 True)))) =
     [[BorderPath, BorderPath], [BorderPath, BorderPath]]"
  "map sym_body (tiles (add_tile tile_A (HexGrid 1 True))) = [[BorderPath]]"
  by (simp_all add: reg_defs tile_A_def)

section \<open>Determinism\<close>

lemma pick_id:
  assumes "xs \<noteq> []"
  shows "sym_id (pick xs rnd) = map sym_id xs ! (rnd 0 mod length (map sym_id xs))"
  using assms by (simp add: pick_def)

lemma for_each_plan:
  assumes "has_group g" "cfg g = cfg G"
    and "\<forall>(q, r) \<in> set cs. \<bar>q\<bar> \<le> size_g G - 1 \<and> \<bar>r\<bar> \<le> size_g G - 1"
  shows "outcome_view (for_each cs (case_prod place_cell) (g, rnd)) =
     plan (size_g G) (map sym_id (tiles G)) (map sym_id (edgetiles G))
       (map sym_id (cornertiles G)) cs (uses g) rnd"
  using assms
proof (induction cs arbitrary: g rnd)
  case Nil
  then show ?case by (simp add: outcome_view_def)
next
  case (Cons c cs)
  obtain q r where c: "c = (q, r)" by (cases c)
  note eqs = cfg_cells [OF Cons.prems(2)] cfg_fields [OF Cons.prems(2)]
  from Cons.prems(3) c have rng: "\<bar>q\<bar> \<le> size_g g - 1" "\<bar>r\<bar> \<le> size_g g - 1"
    and rest: "\<forall>(q, r) \<in> set cs. \<bar>q\<bar> \<le> size_g G - 1 \<and> \<bar>r\<bar> \<le> size_g G - 1"
    by (auto simp: eqs)
  show ?case
  proof (cases rule: cell_cases [of G q r])
    case corner
    let ?u = "make_use (sym_id (pick (cornertiles g) rnd)) q r
       (corner_rotate (size_g g) q r (- q - r))"
    from corner(1) have n: "cornertiles G \<noteq> []" and b: "in_region (size_g G) q r"
      "on_border (size_g G) q r" "zero_coord q r"
      by (simp_all add: corner_cell_def)
    have step: "place_cell q r (g, rnd) = Inr (prepend_use ?u g, rng_next rnd)"
      using corner(1) Cons.prems(1) by (simp add: place_cell_corner eqs)
    have g1: "has_group (prepend_use ?u g)" "cfg (prepend_use ?u g) = cfg G"
      using Cons.prems(1,2) by simp_all
    from Cons.IH [OF g1 rest, of "rng_next rnd"] step c n b Cons.prems(1) show ?thesis
      by (simp add: uses_prepend_use eqs pick_id)
  next
    case edge
    let ?u = "make_use (sym_id (pick (edgetiles g) rnd)) q r
       (edge_rotate (size_g g) q r (- q - r))"
    from edge(1) have n: "edgetiles G \<noteq> []" and b: "in_region (size_g G) q r"
      "on_border (size_g G) q r" "\<not> (zero_coord q r \<and> cornertiles G \<noteq> [])"
      by (simp_all add: edge_cell_def)
    have step: "place_cell q r (g, rnd) = Inr (append_use ?u g, rng_next rnd)"
      using edge(1) Cons.prems(1) by (simp add: place_cell_edge eqs)
    have g1: "has_group (append_use ?u g)" "cfg (append_use ?u g) = cfg G"
      using Cons.prems(1,2) by simp_all
    from Cons.IH [OF g1 rest, of "rng_next rnd"] step c n b Cons.prems(1) show ?thesis
      by (auto simp: uses_append_use eqs pick_id)
  next
    case interior
    from interior(1) have b: "in_region (size_g G) q r" "\<not> on_border (size_g G) q r"
      by (simp_all add: interior_cell_def)
    show ?thesis
    proof (cases "tiles G = []")
      case True
      then have "place_cell q r (g, rnd) = Inl (IndexError, (g, rnd))"
        using interior(1) by (simp add: place_cell_interior_empty eqs)
      with c b True show ?thesis
        by (simp add: outcome_view_def)
    next
      case False
      let ?u = "make_use (sym_id (pick (tiles g) rnd)) q r (int (rnd 1 mod 6))"
      have step: "place_cell q r (g, rnd) = Inr (append_use ?u g, rng_next (rng_next rnd))"
        using interior(1) Cons.prems(1) False by (simp add: place_cell_interior eqs)
      have g1: "has_group (append_use ?u g)" "cfg (append_use ?u g) = cfg G"
        using Cons.prems(1,2) by simp_all
      from Cons.IH [OF g1 rest, of "rng_next (rng_next rnd)"] step c b False Cons.prems(1)
      show ?thesis
        by (simp add: uses_append_use eqs pick_id)
    qed
  next
    case none
    have step: "place_cell q r (g, rnd) = Inr (g, rnd)"
      using none(1) rng by (simp add: place_cell_skip eqs)
    from none(2,3,4) have b: "\<not> in_region (size_g G) q r \<or>
        (on_border (size_g G) q r \<and> \<not> (zero_coord q r \<and> cornertiles G \<noteq> []) \<and> edgetiles G = [])"
      by (auto simp: corner_cell_def edge_cell_def interior_cell_def)
    from Cons.IH [OF Cons.prems(1,2) rest, of rnd] step c b show ?thesis
      by auto
  qed
qed

lemma draw_placement_list:
  "(draw_error g rnd, placements g rnd) =
     placement_list (size_g g) (map sym_id (tiles g)) (map sym_id (edgetiles g))
       (map sym_id (cornertiles g)) (uses g) rnd"
proof -
  have "outcome_view (draw g rnd) = (draw_error g rnd, placements g rnd)"
    by (auto simp: outcome_view_def draw_error_def placements_def drawn_def split: sum.splits)
  with for_each_plan [OF has_group_new_group cfg_new_group in_cells, of g rnd] show ?thesis
    by (simp add: draw_cells placement_list_def uses_new_group)
qed

lemma placement_list_full2:
  "placement_list 2 [''A''] [''edge''] [''corner''] [] zero_rng =
     (None, [make_use ''corner'' 1 0 0, make_use ''corner'' 1 (- 1) 5,
       make_use ''corner'' 0 1 1, make_use ''corner'' 0 (- 1) 4,
       make_use ''corner'' (- 1) 1 2, make_use ''corner'' (- 1) 0 3,
       make_use ''A'' 0 0 0])"
  by (simp add: placement_list_def cells_def range_size_def upto_rec1 in_region_def on_border_def
        zero_coord_def corner_rotate_def edge_rotate_def rng_next_def zero_rng_def)

text \<open>
  Claim C10. The outcome of \<open>draw\<close> and the placements it leaves are a function of the seed
  and the configuration, the function \<open>placement_list\<close> of the size, the identifiers of the
  pools in order, the group's content before the call and the state of the random source.
  Hence two runs from the same state of the random source, on grids of the same size and
  borders flag whose pools hold the same identifiers in the same order (and whose groups
  start out equal, as for two freshly built grids), end the same way with the same sequence
  of placements: the same tile references, pixel positions and rotations in the same order.
\<close>
theorem draw_deterministic:
  assumes "size_g g1 = size_g g2" "borders g1 = borders g2"
    and "map sym_id (tiles g1) = map sym_id (tiles g2)"
    and "map sym_id (edgetiles g1) = map sym_id (edgetiles g2)"
    and "map sym_id (cornertiles g1) = map sym_id (cornertiles g2)"
    and "uses g1 = uses g2"
  shows "draw_error g1 rnd = draw_error g2 rnd \<and> placements g1 rnd = placements g2 rnd \<and>
     (draw_error g1 rnd, placements g1 rnd) =
       placement_list (size_g g1) (map sym_id (tiles g1)) (map sym_id (edgetiles g1))
         (map sym_id (cornertiles g1)) (uses g1) rnd"
  using draw_placement_list [of g1 rnd] draw_placement_list [of g2 rnd] assms
  by (metis prod.inject)

theorem draw_deterministic_witness:
  "size_g (grid_full 2) = size_g grid_other \<and> borders (grid_full 2) = borders grid_other \<and>
   map sym_id (tiles (grid_full 2)) = map sym_id (tiles grid_other) \<and>
   map sym_id (edgetiles (grid_full 2)) = map sym_id (edgetiles grid_other) \<and>
   map sym_id (cornertiles (grid_full 2)) = map sym_id (cornertiles grid_other) \<and>
   uses (grid_full 2) = uses grid_other \<and>
   svg (grid_full 2) \<noteq> svg grid_other \<and>
   draw_error (grid_full 2) zero_rng = draw_error grid_other zero_rng \<and>
   placements (grid_full 2) zero_rng = placements grid_other zero_rng \<and>
   placements (grid_full 2) zero_rng =
     [make_use ''corner'' 1 0 0, make_use ''corner'' 1 (- 1) 5,
      make_use ''corner'' 0 1 1, make_use ''corner'' 0 (- 1) 4,
      make_use ''corner'' (- 1) 1 2, make_use ''corner'' (- 1) 0 3,
      make_use ''A'' 0 0 0]"
proof -
  have a: "size_g (grid_full 2) = size_g grid_other" "borders (grid_full 2) = borders grid_other"
    "map sym_id (tiles (grid_full 2)) = map sym_id (tiles grid_other)"
    "map sym_id (edgetiles (grid_full 2)) = map sym_id (edgetiles grid_other)"
    "map sym_id (cornertiles (grid_full 2)) = map sym_id (cornertiles grid_other)"
    "uses (grid_full 2) = uses grid_other"
    "svg (grid_full 2) \<noteq> svg grid_other"
    by (simp_all add: grid_full_def grid_other_def grid_defs uses_def)
  have b: "size_g (grid_full 2) = 2" "map sym_id (tiles (grid_full 2)) = [''A'']"
    "map sym_id (edgetiles (grid_full 2)) = [''edge'']"
    "map sym_id (cornertiles (grid_full 2)) = [''corner'']" "uses (grid_full 2) = []"
    by (simp_all add: grid_full_def grid_defs uses_def)
  note d = draw_deterministic [OF a(1-6), of zero_rng, unfolded b placement_list_full2]
  from d have e: "draw_error (grid_full 2) zero_rng = draw_error grid_other zero_rng"
    by (rule conjunct1)
  from d have p: "placements (grid_full 2) zero_rng = placements grid_other zero_rng"
    by (elim conjE)
  from d have l: "placements (grid_full 2) zero_rng =
       [make_use ''corner'' 1 0 0, make_use ''corner'' 1 (- 1) 5,
        make_use ''corner'' 0 1 1, make_use ''corner'' 0 (- 1) 4,
        make_use ''corner'' (- 1) 1 2, make_use ''corner'' (- 1) 0 3,
        make_use ''A'' 0 0 0]"
    by (elim conjE) (rule Pair_inject, assumption+)
  show ?thesis
    by (intro conjI a e p l)
qed

end
